theory Spec2Isabelle
  imports Complex_Main
begin

section \<open>JavaScript numbers\<close>

text \<open>
  A JavaScript number is an IEEE 754 double: a finite value, one of the two infinities,
  or NaN. A finite value is modelled as the real number it denotes, and \<open>is_double\<close>
  says which reals are such values: an integer below \<open>2^53\<close> in magnitude times a power
  of two between \<open>2^-1074\<close> and \<open>2^971\<close>. The sign of zero is not modelled.
  \<open>undefined\<close> in an arithmetic position coerces to NaN, so a read past the end of an
  array that feeds arithmetic is NaN as well.
\<close>

datatype jsnum = Fin real | PosInf | NegInf | NaN

fun isFinite :: "jsnum \<Rightarrow> bool" where
  "isFinite (Fin x) = True"
| "isFinite PosInf = False"
| "isFinite NegInf = False"
| "isFinite NaN = False"

definition is_double :: "real \<Rightarrow> bool" where
  "is_double x \<longleftrightarrow>
     (\<exists>m e. x = of_int m * 2 powi e \<and> \<bar>m\<bar> < 2 ^ 53 \<and> - 1074 \<le> e \<and> e \<le> 971)"

text \<open>
  Rounding a real to the nearest double, a tie going to the even significand: the
  real is scaled by the unit in the last place of its binade (that of the subnormal
  numbers below \<open>2^-1022\<close>), rounded to an integer and scaled back; a result of
  magnitude \<open>2^1024\<close> or more is an infinity. A decimal literal of the program denotes
  the double nearest to it.
\<close>

definition round_even :: "real \<Rightarrow> int" where
  "round_even q =
     (let f = \<lfloor>q\<rfloor>; d = q - of_int f
      in if d < 1 / 2 then f else if 1 / 2 < d then f + 1 else if even f then f else f + 1)"

definition expo :: "real \<Rightarrow> int" where
  "expo x = max \<lfloor>log 2 \<bar>x\<bar>\<rfloor> (- 1022)"

definition round_double :: "real \<Rightarrow> jsnum" where
  "round_double x =
     (if x = 0 then Fin 0
      else
        let u = 2 powi (expo x - 52);
            r = of_int (round_even (x / u)) * u
        in if 2 ^ 1024 \<le> \<bar>r\<bar> then (if 0 < x then PosInf else NegInf) else Fin r)"

definition lit :: "real \<Rightarrow> jsnum" where
  "lit x = round_double x"

text \<open>
  The arithmetic and the comparisons of JavaScript on these values. On finite values
  an operation is the exact one followed by rounding. NaN absorbs, an undetermined form
  (\<open>Infinity - Infinity\<close>, \<open>0 * Infinity\<close>, \<open>0 / 0\<close>, \<open>Infinity / Infinity\<close>) is NaN, a
  non-zero number over zero is an infinity, and every comparison with NaN is false.
\<close>

instantiation jsnum :: "{uminus, plus, minus, times, inverse, ord}"
begin

fun uminus_jsnum :: "jsnum \<Rightarrow> jsnum" where
  "uminus_jsnum (Fin a) = Fin (- a)"
| "uminus_jsnum PosInf = NegInf"
| "uminus_jsnum NegInf = PosInf"
| "uminus_jsnum NaN = NaN"

fun plus_jsnum :: "jsnum \<Rightarrow> jsnum \<Rightarrow> jsnum" where
  "plus_jsnum (Fin a) (Fin b) = round_double (a + b)"
| "plus_jsnum NaN y = NaN"
| "plus_jsnum x NaN = NaN"
| "plus_jsnum PosInf NegInf = NaN"
| "plus_jsnum NegInf PosInf = NaN"
| "plus_jsnum PosInf y = PosInf"
| "plus_jsnum NegInf y = NegInf"
| "plus_jsnum (Fin a) y = y"

definition minus_jsnum :: "jsnum \<Rightarrow> jsnum \<Rightarrow> jsnum" where
  "minus_jsnum x y = x + (- y)"

fun times_jsnum :: "jsnum \<Rightarrow> jsnum \<Rightarrow> jsnum" where
  "times_jsnum (Fin a) (Fin b) = round_double (a * b)"
| "times_jsnum NaN y = NaN"
| "times_jsnum x NaN = NaN"
| "times_jsnum (Fin a) y = (if a = 0 then NaN else if 0 < a then y else - y)"
| "times_jsnum x (Fin b) = (if b = 0 then NaN else if 0 < b then x else - x)"
| "times_jsnum PosInf y = y"
| "times_jsnum NegInf y = - y"

fun divide_jsnum :: "jsnum \<Rightarrow> jsnum \<Rightarrow> jsnum" where
  "divide_jsnum (Fin a) (Fin b) =
     (if b \<noteq> 0 then round_double (a / b)
      else if a = 0 then NaN else if 0 < a then PosInf else NegInf)"
| "divide_jsnum NaN y = NaN"
| "divide_jsnum x NaN = NaN"
| "divide_jsnum (Fin a) y = Fin 0"
| "divide_jsnum x (Fin b) = (if 0 \<le> b then x else - x)"
| "divide_jsnum x y = NaN"

definition inverse_jsnum :: "jsnum \<Rightarrow> jsnum" where
  "inverse_jsnum x = divide (Fin 1) x"

fun less_jsnum :: "jsnum \<Rightarrow> jsnum \<Rightarrow> bool" where
  "less_jsnum (Fin a) (Fin b) = (a < b)"
| "less_jsnum NaN y = False"
| "less_jsnum x NaN = False"
| "less_jsnum x NegInf = False"
| "less_jsnum PosInf y = False"
| "less_jsnum x y = True"

fun less_eq_jsnum :: "jsnum \<Rightarrow> jsnum \<Rightarrow> bool" where
  "less_eq_jsnum (Fin a) (Fin b) = (a \<le> b)"
| "less_eq_jsnum NaN y = False"
| "less_eq_jsnum x NaN = False"
| "less_eq_jsnum NegInf y = True"
| "less_eq_jsnum x PosInf = True"
| "less_eq_jsnum x y = False"

instance ..

end

text \<open>\<open>x === y\<close> on numbers: NaN equals nothing, itself included.\<close>

definition strict_eq :: "jsnum \<Rightarrow> jsnum \<Rightarrow> bool" where
  "strict_eq x y = (x \<noteq> NaN \<and> y \<noteq> NaN \<and> x = y)"

text \<open>\<open>x || 0\<close> on a number or \<open>undefined\<close>: zero for the falsy values 0 and NaN.\<close>

definition or_zero :: "jsnum \<Rightarrow> jsnum" where
  "or_zero x = (if x = NaN \<or> x = Fin 0 then Fin 0 else x)"

text \<open>\<open>xs[i]\<close> of a numeric array, read in an arithmetic position.\<close>

definition js_at :: "jsnum list \<Rightarrow> nat \<Rightarrow> jsnum" where
  "js_at xs i = (if i < length xs then xs ! i else NaN)"

text \<open>\<open>Math.round\<close>: the nearest integer, a tie going towards plus infinity.\<close>

definition Math_round :: "real \<Rightarrow> int" where
  "Math_round x = \<lfloor>x + 1 / 2\<rfloor>"

text \<open>
  \<open>Math.max(...xs)\<close> and \<open>Math.min(...xs)\<close>: NaN as soon as one argument is NaN,
  and minus (plus) infinity for no argument at all.
\<close>

fun max2 :: "jsnum \<Rightarrow> jsnum \<Rightarrow> jsnum" where
  "max2 NaN y = NaN"
| "max2 x NaN = NaN"
| "max2 x y = (if x < y then y else x)"

fun min2 :: "jsnum \<Rightarrow> jsnum \<Rightarrow> jsnum" where
  "min2 NaN y = NaN"
| "min2 x NaN = NaN"
| "min2 x y = (if y < x then y else x)"

primrec Math_max :: "jsnum list \<Rightarrow> jsnum" where
  "Math_max [] = NegInf"
| "Math_max (x # xs) = max2 x (Math_max xs)"

primrec Math_min :: "jsnum list \<Rightarrow> jsnum" where
  "Math_min [] = PosInf"
| "Math_min (x # xs) = min2 x (Math_min xs)"

text \<open>
  \<open>xs.indexOf(v)\<close>: the first position whose element is strictly equal to \<open>v\<close>, or
  \<open>-1\<close>; and \<open>xs[i]\<close> for such a result, which is \<open>undefined\<close> outside the array.
\<close>

primrec indexOf :: "jsnum list \<Rightarrow> jsnum \<Rightarrow> int" where
  "indexOf [] v = - 1"
| "indexOf (x # xs) v =
     (if strict_eq x v then 0
      else (let r = indexOf xs v in if r < 0 then - 1 else r + 1))"

definition js_index :: "'a list \<Rightarrow> int \<Rightarrow> 'a option" where
  "js_index xs i = (if 0 \<le> i \<and> i < int (length xs) then Some (xs ! nat i) else None)"

text \<open>\<open>xs.reduce((acc, x, idx) => f(acc, x, idx), init)\<close>.\<close>

definition reduce :: "('b \<Rightarrow> 'a \<Rightarrow> nat \<Rightarrow> 'b) \<Rightarrow> 'b \<Rightarrow> 'a list \<Rightarrow> 'b" where
  "reduce f init xs = foldl (\<lambda>acc (x, idx). f acc x idx) init (zip xs [0..<length xs])"

text \<open>\<open>toUpperCase\<close> and \<open>toLowerCase\<close>, on ASCII text.\<close>

definition toUpperCase :: "string \<Rightarrow> string" where
  "toUpperCase s = map (\<lambda>c. let n = (of_char c :: nat)
                             in if 97 \<le> n \<and> n \<le> 122 then char_of (n - 32) else c) s"

definition toLowerCase :: "string \<Rightarrow> string" where
  "toLowerCase s = map (\<lambda>c. let n = (of_char c :: nat)
                             in if 65 \<le> n \<and> n \<le> 90 then char_of (n + 32) else c) s"

text \<open>The decimal text of an array index, as string concatenation produces it.\<close>

fun decimal :: "nat \<Rightarrow> string" where
  "decimal n = (if n < 10 then [char_of (48 + n)]
                else decimal (n div 10) @ [char_of (48 + n mod 10)])"

section \<open>The AFT formula\<close>

text \<open>
  \<open>calculateAFT(values)\<close>. The array pattern binds nine names to the first nine
  entries; an entry that is not there is \<open>undefined\<close>. The sums and products are
  taken from left to right, as the expressions are written.
\<close>

definition calculateAFT :: "jsnum list \<Rightarrow> jsnum" where
  "calculateAFT values =
     (let SiO2 = js_at values 0; Al2O3 = js_at values 1; Fe2O3 = js_at values 2;
          CaO = js_at values 3; MgO = js_at values 4; Na2O = js_at values 5;
          K2O = js_at values 6; SO3 = js_at values 7; Ti2O = js_at values 8;
          sumSiAl = SiO2 + Al2O3
      in if sumSiAl < Fin 55 then
           Fin 1245 + lit 1.1 * SiO2 + lit 0.95 * Al2O3 - lit 2.5 * Fe2O3 - lit 2.98 * CaO
             - lit 4.5 * MgO - lit 7.89 * (Na2O + K2O) - lit 1.7 * SO3 - lit 0.63 * Ti2O
         else if sumSiAl \<ge> Fin 55 \<and> sumSiAl < Fin 75 then
           Fin 1323 + lit 1.45 * SiO2 + lit 0.683 * Al2O3 - lit 2.39 * Fe2O3 - lit 3.1 * CaO
             - lit 4.5 * MgO - lit 7.49 * (Na2O + K2O) - lit 2.1 * SO3 - lit 0.63 * Ti2O
         else
           Fin 1395 + lit 1.2 * SiO2 + lit 0.9 * Al2O3 - lit 2.5 * Fe2O3 - lit 3.1 * CaO
             - lit 4.5 * MgO - lit 7.2 * (Na2O + K2O) - lit 1.7 * SO3 - lit 0.63 * Ti2O)"

section \<open>The request body of \<open>/optimize\<close>\<close>

text \<open>
  A raw JSON value in a numeric position, by what \<open>Number(...)\<close> makes of it:
  \<open>Missing\<close> is an absent field or \<open>undefined\<close>; \<open>Blank\<close> is text that is empty or
  only white space; \<open>Numeric n\<close> is the number \<open>n\<close>, or text that reads as the numeric
  literal \<open>n\<close>; \<open>Other\<close> is a value that \<open>Number\<close> turns into NaN, such as text that is
  not a numeric literal.
\<close>

datatype raw = Missing | Null | Bool bool | Blank | Numeric jsnum | Other

fun Number :: "raw \<Rightarrow> jsnum" where
  "Number Missing = NaN"
| "Number Null = Fin 0"
| "Number (Bool True) = Fin 1"
| "Number (Bool False) = Fin 0"
| "Number Blank = Fin 0"
| "Number (Numeric n) = n"
| "Number Other = NaN"

text \<open>
  One entry \<open>b\<close> of \<open>req.body.blends\<close>. A numeric field holds what \<open>Number(...)\<close>
  makes of the raw JSON value (NaN for a missing field or for text that is not a
  number). \<open>b_properties\<close> maps a key to \<open>Number\<close> of its value; a key is absent from
  the map when the raw value is missing or \<open>null\<close>, which is what \<open>??\<close> tests, and the
  map is empty when \<open>b.properties\<close> itself is missing. \<open>b_cost\<close> is \<open>None\<close> when the raw
  value is \<open>null\<close>, \<open>undefined\<close> or the empty string, and otherwise the number read
  from its text with the commas removed.
\<close>

record coal_in =
  b_coal :: string
  b_properties :: "string \<rightharpoonup> jsnum"
  b_min :: jsnum
  b_max :: jsnum
  b_current :: jsnum
  b_cost :: "jsnum option"

text \<open>
  \<open>req.body.blends\<close>: a falsy value, a value that is not an array, or an array. An
  array element that is \<open>null\<close> is \<open>None\<close>: reading a field of it throws.
\<close>

datatype body_blends = Absent | NotArray | Array "coal_in option list"

section \<open>Sanitising the input\<close>

definition oxideCols :: "string list" where
  "oxideCols = [''SiO2'', ''Al2O3'', ''Fe2O3'', ''CaO'', ''MgO'', ''Na2O'', ''K2O'', ''SO3'', ''TiO2'']"

definition coalNames :: "coal_in list \<Rightarrow> string list" where
  "coalNames blends = map (\<lambda>b. b_coal b) blends"

text \<open>One cell of \<open>oxideValues\<close>: the property under the column's name, its upper-case or
  its lower-case spelling, else 0; anything that is not a finite number counts as 0.\<close>

definition oxideValue :: "coal_in \<Rightarrow> string \<Rightarrow> jsnum" where
  "oxideValue b col =
     (let v = (case b_properties b col of Some x \<Rightarrow> x | None \<Rightarrow>
                (case b_properties b (toUpperCase col) of Some x \<Rightarrow> x | None \<Rightarrow>
                  (case b_properties b (toLowerCase col) of Some x \<Rightarrow> x | None \<Rightarrow> Fin 0)));
          n = v
      in if isFinite n then n else Fin 0)"

definition oxideRow :: "coal_in \<Rightarrow> jsnum list" where
  "oxideRow b = map (\<lambda>col. oxideValue b col) oxideCols"

definition oxideValues :: "coal_in list \<Rightarrow> jsnum list list" where
  "oxideValues blends = map oxideRow blends"

text \<open>
  The arrow function mapped over \<open>blends\<close> to build \<open>minMaxBounds\<close>. After the
  \<open>Number.isFinite\<close> test a value is a finite number, and after \<open>Math.round\<close> an
  integer; \<open>Math.max\<close> and \<open>Math.min\<close> of finite numbers are exact.
\<close>

definition minMaxBound :: "coal_in \<Rightarrow> int \<times> int" where
  "minMaxBound b =
     (let min_v = (case b_min b of Fin x \<Rightarrow> x | _ \<Rightarrow> 0);
          max_v = (case b_max b of Fin x \<Rightarrow> x | _ \<Rightarrow> 100);
          mm = max 0 (min 100 min_v);
          mx = max mm (min 100 max_v)
      in (Math_round mm, Math_round mx))"

definition minMaxBounds :: "coal_in list \<Rightarrow> (int \<times> int) list" where
  "minMaxBounds blends = map minMaxBound blends"

text \<open>The arrow functions mapped over \<open>blends\<close> to build \<open>costsPerTon\<close> and \<open>gcvValue\<close>.\<close>

definition costPerTon :: "coal_in \<Rightarrow> jsnum" where
  "costPerTon b =
     (case b_cost b of None \<Rightarrow> Fin 0
      | Some n \<Rightarrow> if isFinite n then n else Fin 0)"

definition costsPerTon :: "coal_in list \<Rightarrow> jsnum list" where
  "costsPerTon blends = map costPerTon blends"

definition gcvOf :: "coal_in \<Rightarrow> jsnum" where
  "gcvOf b =
     (let gRaw = (case b_properties b ''GCV'' of Some x \<Rightarrow> x | None \<Rightarrow>
                   (case b_properties b ''Gcv'' of Some x \<Rightarrow> x | None \<Rightarrow>
                     (case b_properties b ''gcv'' of Some x \<Rightarrow> x | None \<Rightarrow>
                       (case b_properties b ''gcv'' of Some x \<Rightarrow> x | None \<Rightarrow> NaN))));
          n = gRaw
      in if isFinite n then n else Fin 0)"

definition gcvValue :: "coal_in list \<Rightarrow> jsnum list" where
  "gcvValue blends = map gcvOf blends"

section \<open>Enumerating the combinations\<close>

text \<open>
  A \<open>for (let v = min; v <= max; v += step)\<close> loop of a generator, with \<open>step = 1\<close> as
  both programs fix it. The body either leaves the loop (\<open>break\<close>) or hands over what
  it yielded and the loop goes on with the next value (\<open>continue\<close> yields nothing).
\<close>

datatype 'a iter = Break | Next "'a list"

function for_loop :: "int \<Rightarrow> int \<Rightarrow> (int \<Rightarrow> 'a iter) \<Rightarrow> 'a list" where
  "for_loop v max_v body =
     (if v \<le> max_v
      then (case body v of Break \<Rightarrow> [] | Next ys \<Rightarrow> ys @ for_loop (v + 1) max_v body)
      else [])"
  by pat_completeness auto
termination
  by (relation "measure (\<lambda>(v, max_v, body). nat (max_v + 1 - v))") auto

declare for_loop.simps [simp del]

lemma for_loop_cong [fundef_cong]:
  assumes "v = v'" and "max_v = max_v'"
    and "\<And>x. v' \<le> x \<Longrightarrow> x \<le> max_v' \<Longrightarrow> body x = body' x"
  shows "for_loop v max_v body = for_loop v' max_v' body'"
  unfolding assms(1,2) using assms(3)
proof (induction v' max_v' body rule: for_loop.induct)
  case (1 v max_v body)
  show ?case
  proof (cases "v \<le> max_v")
    case True
    have b: "body v = body' v" using 1(2) True by simp
    show ?thesis
    proof (cases "body' v")
      case Break
      then show ?thesis using b True by (simp add: for_loop.simps [of v])
    next
      case (Next ys)
      have "for_loop (v + 1) max_v body = for_loop (v + 1) max_v body'"
        using 1(1) [OF True] b Next 1(2) by simp
      then show ?thesis using b True Next by (simp add: for_loop.simps [of v])
    qed
  next
    case False
    then show ?thesis by (simp add: for_loop.simps [of v])
  qed
qed

text \<open>
  The generator of the \<open>/optimize\<close> handler, \<open>generateCombinations(bounds, idx, acc)\<close>:
  the list of the vectors it yields, in the order it yields them. Past the last
  position (an empty \<open>bounds\<close>, \<open>idx\<close> starting at 0) the pattern \<open>[min, max] =
  bounds[idx]\<close> throws; nothing is yielded, and the call below reports the error.
\<close>

function generateCombinations :: "(int \<times> int) list \<Rightarrow> nat \<Rightarrow> int list \<Rightarrow> int list list" where
  "generateCombinations bounds idx acc =
     (if int idx = int (length bounds) - 1 then
        (let sumSoFar = sum_list acc;
             lastVal = 100 - sumSoFar;
             (minLast, maxLast) = bounds ! idx
         in if lastVal \<ge> minLast \<and> lastVal \<le> maxLast then [acc @ [lastVal]] else [])
      else if idx < length bounds then
        (let (min_v, max_v) = bounds ! idx
         in for_loop min_v max_v (\<lambda>v.
              let sumSoFar = sum_list acc + v
              in if sumSoFar > 100 then Break
                 else
                   let remainingMin = sum_list (map fst (drop (idx + 1) bounds));
                       remainingMax = sum_list (map snd (drop (idx + 1) bounds))
                   in if sumSoFar + remainingMax < 100 then Next []
                      else if sumSoFar + remainingMin > 100 then Next []
                      else Next (generateCombinations bounds (idx + 1) (acc @ [v]))))
      else [])"
  by pat_completeness auto
termination
  by (relation "measure (\<lambda>(bounds, idx, acc). length bounds - idx)") auto

declare generateCombinations.simps [simp del]

datatype js_error = TypeError

text \<open>\<open>generateCombinations(minMaxBounds)\<close>, with the defaults \<open>idx = 0\<close>, \<open>acc = []\<close>.\<close>

definition generateCombinations_call :: "(int \<times> int) list \<Rightarrow> js_error + int list list" where
  "generateCombinations_call bounds =
     (if bounds = [] then Inl TypeError else Inr (generateCombinations bounds 0 []))"

text \<open>
  The generator of the earlier program, \<open>generateCombinations(bounds, step)\<close> with its
  inner \<open>helper(index, combo)\<close>: every vector of the ranges, kept when it sums to 100.
\<close>

function helper :: "(int \<times> int) list \<Rightarrow> nat \<Rightarrow> int list \<Rightarrow> int list list" where
  "helper bounds index combo =
     (if index = length bounds then
        (let sum = sum_list combo in if sum = 100 then [combo] else [])
      else if index < length bounds then
        (let (min_v, max_v) = bounds ! index
         in for_loop min_v max_v (\<lambda>i. Next (helper bounds (index + 1) (combo @ [i]))))
      else [])"
  by pat_completeness auto
termination
  by (relation "measure (\<lambda>(bounds, index, combo). length bounds - index)") auto

declare helper.simps [simp del]

definition generateCombinations_naive :: "(int \<times> int) list \<Rightarrow> int list list" where
  "generateCombinations_naive bounds = helper bounds 0 []"

section \<open>Scoring and selection\<close>

text \<open>
  The object pushed for one combination, and the shorter one built for the current
  mix (it has no \<open>blended_oxides\<close>). \<open>blend\<close> holds JavaScript numbers: the integer
  percentages of a combination, or the \<open>current\<close> values as supplied.
\<close>

record blend_summary =
  blend :: "jsnum list"
  predicted_aft :: jsnum
  cost :: jsnum
  gcv :: jsnum

record candidate = blend_summary +
  blended_oxides :: "jsnum list"

text \<open>The body of the loop over the combinations: the entry pushed to \<open>validBlends\<close>.\<close>

definition evalBlend :: "coal_in list \<Rightarrow> int list \<Rightarrow> candidate" where
  "evalBlend blends blend_v =
     (let weights = map (\<lambda>x. Fin (of_int x) / Fin 100) blend_v;
          blendedOxides = map (\<lambda>oi.
              reduce (\<lambda>sum val idx. sum + js_at val oi * js_at weights idx) (Fin 0)
                (oxideValues blends))
            [0..<length oxideCols];
          predictedAFT = calculateAFT blendedOxides;
          totalGcv = reduce (\<lambda>sum pct i.
              sum + Fin (of_int pct) * or_zero (js_at (gcvValue blends) i)) (Fin 0) blend_v
            / Fin 100;
          totalCost = reduce (\<lambda>sum pct i.
              sum + Fin (of_int pct) * or_zero (js_at (costsPerTon blends) i)) (Fin 0) blend_v
            / Fin 100
      in \<lparr>blend = map (\<lambda>x. Fin (of_int x)) blend_v, predicted_aft = predictedAFT,
          cost = totalCost, gcv = totalGcv, blended_oxides = blendedOxides\<rparr>)"

text \<open>
  The two normalised terms of a score, with the extremes they close over. The literal
  \<open>0.5\<close> is a double.
\<close>

definition aftNorm :: "jsnum \<Rightarrow> jsnum \<Rightarrow> candidate \<Rightarrow> jsnum" where
  "aftNorm aftMin aftMax b =
     (if strict_eq aftMax aftMin then Fin 0.5
      else (predicted_aft b - aftMin) / (aftMax - aftMin))"

definition costNorm :: "jsnum \<Rightarrow> jsnum \<Rightarrow> candidate \<Rightarrow> jsnum" where
  "costNorm costMin costMax b =
     (if strict_eq costMax costMin then Fin 0.5
      else (costMax - cost b) / (costMax - costMin))"

definition aftMin :: "candidate list \<Rightarrow> jsnum" where
  "aftMin validBlends = Math_min (map predicted_aft validBlends)"

definition aftMax :: "candidate list \<Rightarrow> jsnum" where
  "aftMax validBlends = Math_max (map predicted_aft validBlends)"

definition costMin :: "candidate list \<Rightarrow> jsnum" where
  "costMin validBlends = Math_min (map cost validBlends)"

definition costMax :: "candidate list \<Rightarrow> jsnum" where
  "costMax validBlends = Math_max (map cost validBlends)"

definition blendScores :: "candidate list \<Rightarrow> jsnum list" where
  "blendScores validBlends =
     map (\<lambda>b. aftNorm (aftMin validBlends) (aftMax validBlends) b
               + costNorm (costMin validBlends) (costMax validBlends) b) validBlends"

definition indexOfBestAft :: "candidate list \<Rightarrow> int" where
  "indexOfBestAft validBlends =
     (let aftVals = map predicted_aft validBlends in indexOf aftVals (Math_max aftVals))"

definition indexOfCheapest :: "candidate list \<Rightarrow> int" where
  "indexOfCheapest validBlends =
     (let costVals = map cost validBlends in indexOf costVals (Math_min costVals))"

definition indexOfBalanced :: "candidate list \<Rightarrow> int" where
  "indexOfBalanced validBlends =
     indexOf (blendScores validBlends) (Math_max (blendScores validBlends))"

definition bestAftBlend :: "candidate list \<Rightarrow> candidate option" where
  "bestAftBlend validBlends = js_index validBlends (indexOfBestAft validBlends)"

definition cheapestBlend :: "candidate list \<Rightarrow> candidate option" where
  "cheapestBlend validBlends = js_index validBlends (indexOfCheapest validBlends)"

definition balancedBlend :: "candidate list \<Rightarrow> candidate option" where
  "balancedBlend validBlends = js_index validBlends (indexOfBalanced validBlends)"

section \<open>The current mix and the single coals\<close>

definition currentBlend :: "coal_in list \<Rightarrow> blend_summary" where
  "currentBlend blends =
     (let currentWeights = map (\<lambda>b. let n = b_current b
                                      in if isFinite n then n / Fin 100 else Fin 0) blends;
          currentBlendedOxides = map (\<lambda>oi.
              reduce (\<lambda>sum val idx. sum + js_at val oi * or_zero (js_at currentWeights idx))
                (Fin 0) (oxideValues blends))
            [0..<length oxideCols];
          currentAFT = calculateAFT currentBlendedOxides;
          currentGCV = reduce (\<lambda>sum b i.
              sum + or_zero (b_current b) * or_zero (js_at (gcvValue blends) i)) (Fin 0) blends
            / Fin 100;
          currentCost = reduce (\<lambda>sum b i.
              sum + or_zero (b_current b) * or_zero (js_at (costsPerTon blends) i)) (Fin 0) blends
            / Fin 100
      in \<lparr>blend = map (\<lambda>b. or_zero (b_current b)) blends, predicted_aft = currentAFT,
          cost = currentCost, gcv = currentGCV\<rparr>)"

definition individualCoalAFTs :: "coal_in list \<Rightarrow> (string \<times> jsnum) list" where
  "individualCoalAFTs blends =
     map (\<lambda>(vals, i).
            (let name = (if i < length (coalNames blends) then coalNames blends ! i else [])
             in if name = [] then ''coal-'' @ decimal i else name,
             calculateAFT vals))
         (zip (oxideValues blends) [0..<length (oxideValues blends)])"

section \<open>The optimisation of the \<open>/optimize\<close> handler\<close>

text \<open>
  The part of the handler from \<open>const { blends } = req.body\<close> to the response: the
  status and, for 200, the JSON object sent. A selected blend is \<open>None\<close> when the array
  read that picks it is \<open>undefined\<close>. Whatever is thrown inside is caught and answered
  with 500. The session and trial bookkeeping around it is not modelled.
\<close>

record result =
  best_aft_blend :: "candidate option"
  cheapest_blend :: "candidate option"
  balanced_blend :: "candidate option"
  current_blend :: blend_summary
  individual_coal_afts :: "(string \<times> jsnum) list"

datatype response = Status200 result | Status400 | Status404 | Status500

definition validBlends_of :: "coal_in list \<Rightarrow> int list list \<Rightarrow> candidate list" where
  "validBlends_of blends combos = map (evalBlend blends) combos"

definition optimize :: "body_blends \<Rightarrow> response" where
  "optimize body =
     (case body of
        Absent \<Rightarrow> Status400
      | NotArray \<Rightarrow> Status400
      | Array raw \<Rightarrow>
          if length raw = 0 then Status400
          else (case those raw of
                  None \<Rightarrow> Status500
                | Some blends \<Rightarrow>
                    (case generateCombinations_call (minMaxBounds blends) of
                       Inl e \<Rightarrow> Status500
                     | Inr combos \<Rightarrow>
                         let validBlends = validBlends_of blends combos
                         in if length validBlends = 0 then Status404
                            else Status200
                              \<lparr>best_aft_blend = bestAftBlend validBlends,
                               cheapest_blend = cheapestBlend validBlends,
                               balanced_blend = balancedBlend validBlends,
                               current_blend = currentBlend blends,
                               individual_coal_afts = individualCoalAFTs blends\<rparr>)))"

section \<open>What the enumeration is to produce\<close>

text \<open>
  Every vector with one value from each range, in lexicographic order, and those
  that complete a partial vector \<open>acc\<close> to a sum of 100 from position \<open>idx\<close> on.
\<close>

fun cross :: "(int \<times> int) list \<Rightarrow> int list list" where
  "cross [] = [[]]"
| "cross (b # bs) = concat (map (\<lambda>v. map ((#) v) (cross bs)) [fst b..snd b])"

definition completions :: "(int \<times> int) list \<Rightarrow> nat \<Rightarrow> int list \<Rightarrow> int list list" where
  "completions bounds idx acc =
     map (\<lambda>s. acc @ s)
       (filter (\<lambda>s. sum_list acc + sum_list s = 100) (cross (drop idx bounds)))"

text \<open>
  Position \<open>i\<close> holds the greatest (the least) value of a list of numbers and is the
  first position to do so.
\<close>

definition first_max :: "jsnum list \<Rightarrow> nat \<Rightarrow> bool" where
  "first_max xs i \<longleftrightarrow>
     i < length xs \<and> (\<forall>j < length xs. xs ! j \<le> xs ! i) \<and> (\<forall>j < i. xs ! j < xs ! i)"

definition first_min :: "jsnum list \<Rightarrow> nat \<Rightarrow> bool" where
  "first_min xs i \<longleftrightarrow>
     i < length xs \<and> (\<forall>j < length xs. xs ! i \<le> xs ! j) \<and> (\<forall>j < i. xs ! i < xs ! j)"


text \<open>
  The weighted sum of values \<open>xs\<close> with weights \<open>ws\<close>, accumulated from 0 in the order
  of the lists.
\<close>

definition weighted_sum :: "jsnum list \<Rightarrow> jsnum list \<Rightarrow> jsnum" where
  "weighted_sum xs ws = foldl (\<lambda>s (x, w). s + x * w) (Fin 0) (zip xs ws)"

section \<open>Properties of rounding\<close>

lemma round_even_of_int [simp]: "round_even (of_int n) = n"
  by (simp add: round_even_def)

lemma round_even_bounds: "\<lfloor>q\<rfloor> \<le> round_even q \<and> round_even q \<le> \<lfloor>q\<rfloor> + 1"
  by (simp add: round_even_def Let_def)


lemma powr_powi: "2 powr (of_int k) = (2::real) powi k"
  by (simp add: powr_real_of_int power_int_def power_one_over inverse_eq_divide)

lemma expo_ge: "- 1022 \<le> expo x"
  by (simp add: expo_def)

lemma expo_eq:
  assumes "2 powi k \<le> \<bar>x\<bar>" and "\<bar>x\<bar> < 2 powi (k + 1)" and "- 1022 \<le> k"
  shows "expo x = k"
proof -
  have "0 < \<bar>x\<bar>" using assms(1) zero_less_power_int [of "2::real" k] by linarith
  then have "\<lfloor>log 2 \<bar>x\<bar>\<rfloor> = k"
    using assms(1,2) by (simp add: floor_log_eq_powr_iff powr_powi [symmetric])
  then show ?thesis using assms(3) by (simp add: expo_def)
qed

lemma expo_sub:
  assumes "x \<noteq> 0" and "\<bar>x\<bar> < 2 powi (- 1022)"
  shows "expo x = - 1022"
proof -
  have pos: "0 < \<bar>x\<bar>" using assms(1) by simp
  have "\<lfloor>log 2 \<bar>x\<bar>\<rfloor> < - 1022"
  proof (rule ccontr)
    assume "\<not> \<lfloor>log 2 \<bar>x\<bar>\<rfloor> < - 1022"
    then have "of_int (- 1022) \<le> log 2 \<bar>x\<bar>" by (simp add: le_floor_iff)
    then have "2 powr (of_int (- 1022)) \<le> \<bar>x\<bar>"
      using pos by (simp add: le_log_iff del: of_int_minus)
    then show False using assms(2) by (simp add: powr_powi del: of_int_minus)
  qed
  then show ?thesis by (simp add: expo_def)
qed






lemma round_double_exact:
  assumes "is_double x"
  shows "round_double x = Fin x"
proof (cases "x = 0")
  case True
  then show ?thesis by (simp add: round_double_def)
next
  case False
  obtain m e where me: "x = of_int m * 2 powi e" "\<bar>m\<bar> < 2 ^ 53" "- 1074 \<le> e" "e \<le> 971"
    using assms by (auto simp: is_double_def)
  have m0: "m \<noteq> 0" using False me(1) by auto
  have ax: "\<bar>x\<bar> = of_int \<bar>m\<bar> * 2 powi e" unfolding me(1) by (simp add: abs_mult)
  have lt: "\<bar>x\<bar> < 2 powi (e + 53)"
  proof -
    have "of_int \<bar>m\<bar> < (2::real) ^ 53" using me(2) by (metis of_int_less_numeral_power_cancel_iff)
    then have "of_int \<bar>m\<bar> * 2 powi e < (2::real) ^ 53 * 2 powi e"
      by (intro mult_strict_right_mono) simp_all
    also have "(2::real) ^ 53 * 2 powi e = 2 powi (e + 53)"
      by (simp add: power_int_add)
    finally show ?thesis unfolding ax .
  qed
  have ex: "expo x - 52 \<le> e"
  proof -
    have pos: "0 < \<bar>x\<bar>" using False by simp
    have "\<lfloor>log 2 \<bar>x\<bar>\<rfloor> < e + 53"
    proof (rule ccontr)
      assume "\<not> \<lfloor>log 2 \<bar>x\<bar>\<rfloor> < e + 53"
      then have "e + 53 \<le> \<lfloor>log 2 \<bar>x\<bar>\<rfloor>" by simp
      then have "of_int (e + 53) \<le> log 2 \<bar>x\<bar>" by (simp only: le_floor_iff)
      then have "2 powr (of_int (e + 53)) \<le> \<bar>x\<bar>"
        using pos by (simp only: le_log_iff)
      then show False using lt by (simp only: powr_powi)
    qed
    then show ?thesis using me(3) by (simp add: expo_def)
  qed
  define d where "d = e - (expo x - 52)"
  define u where "u = (2::real) powi (expo x - 52)"
  have u: "0 < u" by (simp add: u_def)
  have d: "0 \<le> d" using ex by (simp add: d_def)
  have "(2::real) powi e = 2 powi d * u"
    by (simp add: d_def u_def power_int_add [symmetric])
  also have "(2::real) powi d = of_int (2 ^ nat d)" using d by (simp add: power_int_def)
  finally have xe: "x = of_int (m * 2 ^ nat d) * u"
    using me(1) by (simp del: of_int_power)
  have q: "x / u = of_int (m * 2 ^ nat d)"
    using u by (subst xe) simp
  have xu: "of_int (m * 2 ^ nat d) * u = x"
    using xe by simp
  have "\<bar>x\<bar> < 2 powi (971 + 53)"
    using lt power_int_increasing [of "e + 53" "971 + 53" "2::real"] me(4) by simp
  then have small: "\<bar>x\<bar> < 2 ^ 1024" by simp
  show ?thesis
    using False small
    by (simp add: round_double_def Let_def u_def [symmetric] q xu del: of_int_mult of_int_power)
qed


lemma round_double_at:
  assumes "2 powi k \<le> \<bar>x\<bar>" and "\<bar>x\<bar> < 2 powi (k + 1)" and "- 1022 \<le> k"
  shows "round_double x =
    (let u = 2 powi (k - 52); r = of_int (round_even (x / u)) * u
     in if 2 ^ 1024 \<le> \<bar>r\<bar> then (if 0 < x then PosInf else NegInf) else Fin r)"
proof -
  have "\<not> (2::real) powi k \<le> 0" by (simp add: not_le)
  then have "x \<noteq> 0" using assms(1) by auto
  then show ?thesis by (simp add: round_double_def expo_eq [OF assms])
qed

lemma is_double_of_int: "\<bar>k\<bar> < 2 ^ 53 \<Longrightarrow> is_double (of_int k)"
  unfolding is_double_def by (intro exI [of _ k] exI [of _ 0]) simp

lemma round_double_of_int: "\<bar>k\<bar> < 2 ^ 53 \<Longrightarrow> round_double (of_int k) = Fin (of_int k)"
  by (intro round_double_exact is_double_of_int)

lemma round_double_numeral:
  "numeral n < (2 ^ 53 :: int) \<Longrightarrow> round_double (numeral n) = Fin (numeral n)"
  using round_double_of_int [of "numeral n"] by simp

lemma round_double_0: "round_double 0 = Fin 0"
  by (simp add: round_double_def)

lemma round_double_1: "round_double 1 = Fin 1"
  using round_double_of_int [of 1] by simp


text \<open>Below \<open>2^1023\<close> in magnitude nothing rounds to an infinity.\<close>

lemma expo_le:
  assumes "x \<noteq> 0" and "\<bar>x\<bar> < 2 powi (n + 1)" and "- 1022 \<le> n"
  shows "expo x \<le> n"
proof (cases "\<bar>x\<bar> < 2 powi (- 1022)")
  case True
  then have "expo x = - 1022" using assms(1) by (intro expo_sub)
  then show ?thesis using assms(3) by simp
next
  case False
  then have pos: "0 < \<bar>x\<bar>" using zero_less_power_int [of "2::real" "- 1022"] by linarith
  define k where "k = \<lfloor>log 2 \<bar>x\<bar>\<rfloor>"
  have k: "2 powi k \<le> \<bar>x\<bar>" "\<bar>x\<bar> < 2 powi (k + 1)"
    using floor_log_eq_powr_iff [of "\<bar>x\<bar>" 2 k] pos
    by (simp_all add: k_def powr_powi [symmetric])
  have "k \<le> n"
  proof (rule ccontr)
    assume "\<not> k \<le> n"
    then have "n + 1 \<le> k" by simp
    then have "(2::real) powi (n + 1) \<le> 2 powi k"
      by (intro power_int_increasing) simp_all
    then show False using k(1) assms(2) by linarith
  qed
  then show ?thesis using assms(3) by (simp add: expo_def k_def)
qed

lemma expo_upper:
  assumes "x \<noteq> 0"
  shows "\<bar>x\<bar> < 2 powi (expo x + 1)"
proof (cases "\<bar>x\<bar> < 2 powi (- 1022)")
  case True
  then have e: "expo x = - 1022" using assms by (intro expo_sub)
  have "(2::real) powi (- 1022) \<le> 2 powi (- 1022 + 1)"
    by (intro power_int_increasing) simp_all
  then show ?thesis unfolding e using True by linarith
next
  case False
  then have pos: "0 < \<bar>x\<bar>" using zero_less_power_int [of "2::real" "- 1022"] by linarith
  define k where "k = \<lfloor>log 2 \<bar>x\<bar>\<rfloor>"
  have k: "2 powi k \<le> \<bar>x\<bar>" "\<bar>x\<bar> < 2 powi (k + 1)"
    using floor_log_eq_powr_iff [of "\<bar>x\<bar>" 2 k] pos
    by (simp_all add: k_def powr_powi [symmetric])
  have "- 1022 \<le> k"
  proof (rule ccontr)
    assume "\<not> - 1022 \<le> k"
    then have "k + 1 \<le> - 1022" by simp
    then have "(2::real) powi (k + 1) \<le> 2 powi (- 1022)"
      by (intro power_int_increasing) simp_all
    then show False using k(2) False by linarith
  qed
  then have "expo x = k" by (simp add: expo_def k_def)
  then show ?thesis using k(2) by simp
qed

lemma round_double_finite:
  assumes "\<bar>x\<bar> < 2 ^ 1023"
  shows "isFinite (round_double x)"
proof (cases "x = 0")
  case True
  then show ?thesis by (simp add: round_double_def)
next
  case False
  define e where "e = expo x"
  define u where "u = (2::real) powi (e - 52)"
  define t :: int where "t = 1023"
  have u: "0 < u" by (simp add: u_def)
  have p: "(2::real) ^ 1023 = 2 powi t" by (simp add: t_def)
  have "\<bar>x\<bar> < 2 powi (1022 + 1)" using assms by simp
  then have e: "e \<le> 1022" unfolding e_def using False by (intro expo_le) simp_all
  have "\<bar>x\<bar> < 2 powi (e + 1)" unfolding e_def using False by (rule expo_upper)
  also have "(2::real) powi (e + 1) = 2 ^ 53 * u"
  proof -
    define s :: int where "s = 53"
    have "(2::real) ^ 53 = 2 powi s" by (simp add: s_def)
    moreover have "(2::real) powi s * 2 powi (e - 52) = 2 powi (s + (e - 52))"
      by (simp add: power_int_add)
    moreover have "s + (e - 52) = e + 1" by (simp add: s_def)
    ultimately show ?thesis unfolding u_def by (simp only:)
  qed
  finally have "\<bar>x / u\<bar> < 2 ^ 53" using u by (simp add: divide_less_eq)
  then have q: "x / u < 2 ^ 53" "- (2 ^ 53) < x / u"
    unfolding abs_less_iff by linarith+
  have "\<lfloor>x / u\<rfloor> < 2 ^ 53" using q(1) by (simp add: floor_less_iff)
  moreover have "- (2 ^ 53) \<le> \<lfloor>x / u\<rfloor>" using q(2) by (simp add: le_floor_iff)
  ultimately have "\<bar>round_even (x / u)\<bar> \<le> 2 ^ 53"
    using round_even_bounds [of "x / u"] by linarith
  then have "\<bar>of_int (round_even (x / u)) :: real\<bar> \<le> of_int (2 ^ 53)"
    by (metis of_int_abs of_int_le_iff)
  then have "\<bar>of_int (round_even (x / u)) * u\<bar> \<le> of_int (2 ^ 53) * u"
    using u by (simp add: abs_mult del: of_int_power of_int_numeral)
  also have "of_int (2 ^ 53) * u = 2 powi (e + 1)"
  proof -
    define s :: int where "s = 53"
    have "of_int (2 ^ 53) = (2::real) powi s" by (simp add: s_def)
    moreover have "(2::real) powi s * 2 powi (e - 52) = 2 powi (s + (e - 52))"
      by (simp add: power_int_add)
    moreover have "s + (e - 52) = e + 1" by (simp add: s_def)
    ultimately show ?thesis unfolding u_def by (simp only:)
  qed
  also have "\<dots> \<le> 2 powi t"
    unfolding t_def using e by (intro power_int_increasing) simp_all
  also have "\<dots> < 2 powi (t + 1)"
    by (intro power_int_strict_increasing) simp_all
  also have "\<dots> = 2 ^ 1024" by (simp add: t_def)
  finally have "\<not> 2 ^ 1024 \<le> \<bar>of_int (round_even (x / u)) * u\<bar>" by simp
  then show ?thesis
    using False by (simp add: round_double_def Let_def u_def e_def)
qed

lemma round_double_overflow:
  "round_double (2 ^ 1024) = PosInf"
proof -
  define k :: int where "k = 1024"
  have x: "(2::real) ^ 1024 = 2 powi k" by (simp add: k_def)
  have a: "2 powi k \<le> \<bar>(2::real) powi k\<bar>" by simp
  have "(2::real) powi k < 2 powi (k + 1)"
    by (intro power_int_strict_increasing) simp_all
  then have b: "\<bar>(2::real) powi k\<bar> < 2 powi (k + 1)" by simp
  have c: "- 1022 \<le> k" by (simp add: k_def)
  have q: "(2::real) powi k / 2 powi (k - 52) = of_int (2 ^ 52)"
    by (simp add: power_int_diff)
  have r: "of_int (2 ^ 52) * (2::real) powi (k - 52) = 2 powi k"
    by (simp add: power_int_diff)
  have ge: "(2::real) ^ 1024 \<le> \<bar>2 powi k\<bar>" unfolding x by simp
  have pos: "0 < (2::real) powi k" by simp
  have "round_double (2 powi k) =
      (if 2 ^ 1024 \<le> \<bar>(2::real) powi k\<bar>
       then (if 0 < (2::real) powi k then PosInf else NegInf) else Fin (2 powi k))"
    unfolding round_double_at [OF a b c] Let_def q round_even_of_int r ..
  also have "\<dots> = PosInf" using ge pos by (simp only: if_True)
  finally show ?thesis unfolding x .
qed

section \<open>Properties of the sanitised bounds\<close>

lemma Math_round_mono: "x \<le> y \<Longrightarrow> Math_round x \<le> Math_round y"
  unfolding Math_round_def by (intro floor_mono) simp

lemma Math_round_of_int: "Math_round (of_int k) = k"
  unfolding Math_round_def by linarith

lemma Math_round_0: "Math_round 0 = 0"
  using Math_round_of_int [of 0] by simp

lemma Math_round_100: "Math_round 100 = 100"
  using Math_round_of_int [of 100] by simp

lemma Math_round_range:
  assumes "0 \<le> x" and "x \<le> 100"
  shows "0 \<le> Math_round x \<and> Math_round x \<le> 100"
  using Math_round_mono [OF assms(1)] Math_round_mono [OF assms(2)]
  by (simp add: Math_round_0 Math_round_100)

lemma minMaxBound_range:
  "0 \<le> fst (minMaxBound b) \<and> fst (minMaxBound b) \<le> snd (minMaxBound b)
    \<and> snd (minMaxBound b) \<le> 100"
proof -
  define mm where "mm = max 0 (min 100 (case b_min b of Fin x \<Rightarrow> x | _ \<Rightarrow> (0::real)))"
  define mx where "mx = max mm (min 100 (case b_max b of Fin x \<Rightarrow> x | _ \<Rightarrow> (100::real)))"
  have eq: "minMaxBound b = (Math_round mm, Math_round mx)"
    by (simp add: minMaxBound_def Let_def mm_def mx_def)
  have mm: "0 \<le> mm" "mm \<le> 100" by (simp_all add: mm_def)
  have mx: "mm \<le> mx" "mx \<le> 100" using mm by (simp_all add: mx_def)
  show ?thesis
    unfolding eq using Math_round_range [OF mm] Math_round_mono [OF mx(1)]
      Math_round_mono [OF mx(2)] by (simp add: Math_round_100)
qed

text \<open>
  C10 as stated fails: a \<open>max\<close> of \<open>null\<close> (or blank text) is not numeric, yet it does
  not default to 100. \<open>Number(null)\<close> is 0, a finite number, so with \<open>min = 10\<close> the pair
  used is \<open>(10, 10)\<close>, not \<open>(10, 100)\<close>.
\<close>

theorem minMaxBound_null_counterexample:
  "minMaxBound \<lparr>b_coal = ''A'', b_properties = Map.empty, b_min = Number (Numeric (Fin 10)),
      b_max = Number Null, b_current = Fin 0, b_cost = None\<rparr> = (10, 10)
   \<and> minMaxBound \<lparr>b_coal = ''A'', b_properties = Map.empty, b_min = Number (Numeric (Fin 10)),
      b_max = Number Null, b_current = Fin 0, b_cost = None\<rparr> \<noteq> (10, 100)"
  by (simp add: minMaxBound_def Math_round_def)

text \<open>
  C10, amended: whatever the supplied \<open>min\<close> and \<open>max\<close> are, the pair used for
  enumeration consists of two integers with \<open>0 \<le> min' \<le> max' \<le> 100\<close>. A \<open>min\<close> that
  \<open>Number\<close> does not turn into a finite number (a missing field, text that is not a
  number, NaN or an infinity) counts as 0 and such a \<open>max\<close> as 100, while \<open>null\<close>, blank
  text and \<open>false\<close> count as the number 0 and \<open>true\<close> as 1. \<open>min'\<close> is that value clamped
  to \<open>[0,100]\<close> and rounded, and \<open>max'\<close> is the value for \<open>max\<close> clamped and rounded
  likewise, raised to \<open>min'\<close> when it is below it.
\<close>

theorem minMaxBound_sanitized:
  assumes "b_min b = Number rmin" and "b_max b = Number rmax"
  shows "minMaxBound b =
      (let min_v = (if isFinite (Number rmin) then (case Number rmin of Fin x \<Rightarrow> x) else 0);
           max_v = (if isFinite (Number rmax) then (case Number rmax of Fin x \<Rightarrow> x) else 100);
           lo = Math_round (max 0 (min 100 min_v))
       in (lo, max lo (Math_round (max 0 (min 100 max_v)))))
    \<and> 0 \<le> fst (minMaxBound b) \<and> fst (minMaxBound b) \<le> snd (minMaxBound b)
    \<and> snd (minMaxBound b) \<le> 100
    \<and> (rmin \<in> {Missing, Other} \<longrightarrow> fst (minMaxBound b) = 0)
    \<and> (rmax \<in> {Missing, Other} \<longrightarrow> snd (minMaxBound b) = 100)
    \<and> (rmax \<in> {Null, Blank, Bool False} \<longrightarrow> snd (minMaxBound b) = fst (minMaxBound b))"
proof -
  define min_v where "min_v = (case b_min b of Fin x \<Rightarrow> x | _ \<Rightarrow> (0::real))"
  define max_v where "max_v = (case b_max b of Fin x \<Rightarrow> x | _ \<Rightarrow> (100::real))"
  define mm where "mm = max 0 (min 100 min_v)"
  define mx where "mx = max mm (min 100 max_v)"
  have eq: "minMaxBound b = (Math_round mm, Math_round mx)"
    by (simp add: minMaxBound_def Let_def min_v_def max_v_def mm_def mx_def)
  have mn: "min_v = (if isFinite (Number rmin) then (case Number rmin of Fin x \<Rightarrow> x) else 0)"
    unfolding min_v_def assms(1) by (cases "Number rmin") simp_all
  have mxv: "max_v = (if isFinite (Number rmax) then (case Number rmax of Fin x \<Rightarrow> x) else 100)"
    unfolding max_v_def assms(2) by (cases "Number rmax") simp_all
  have mm: "0 \<le> mm" "mm \<le> 100" by (simp_all add: mm_def)
  have lo0: "0 \<le> Math_round mm" using Math_round_range [OF mm] by simp
  have "Math_round mx = max (Math_round mm) (Math_round (min 100 max_v))"
  proof (cases "mm \<le> min 100 max_v")
    case True
    then show ?thesis using Math_round_mono [OF True] by (simp add: mx_def max_absorb2)
  next
    case False
    then have le: "min 100 max_v \<le> mm" using mm by linarith
    then show ?thesis using Math_round_mono [OF le] by (simp add: mx_def max_absorb1)
  qed
  also have "\<dots> = max (Math_round mm) (Math_round (max 0 (min 100 max_v)))"
  proof (cases "0 \<le> min 100 max_v")
    case True
    then show ?thesis by (simp add: max_absorb2)
  next
    case False
    then have neg: "min 100 max_v \<le> 0" by simp
    have "Math_round (min 100 max_v) \<le> 0"
      using Math_round_mono [OF neg] by (simp add: Math_round_0)
    then show ?thesis using neg lo0 by (simp add: max_absorb1 Math_round_0)
  qed
  finally have hi: "Math_round mx =
      max (Math_round mm) (Math_round (max 0 (min 100 max_v)))" .
  have pin: "minMaxBound b =
      (let min_v = (if isFinite (Number rmin) then (case Number rmin of Fin x \<Rightarrow> x) else 0);
           max_v = (if isFinite (Number rmax) then (case Number rmax of Fin x \<Rightarrow> x) else 100);
           lo = Math_round (max 0 (min 100 min_v))
       in (lo, max lo (Math_round (max 0 (min 100 max_v)))))"
    unfolding eq hi by (simp add: Let_def mm_def mn [symmetric] mxv [symmetric])
  have d1: "fst (minMaxBound b) = 0" if "rmin \<in> {Missing, Other}"
    using that unfolding eq by (auto simp: mm_def mn Math_round_0)
  have d2: "snd (minMaxBound b) = 100" if "rmax \<in> {Missing, Other}"
    using that mm unfolding eq by (auto simp: mx_def mxv Math_round_100 max_absorb2)
  have d3: "snd (minMaxBound b) = fst (minMaxBound b)" if "rmax \<in> {Null, Blank, Bool False}"
    using that mm unfolding eq by (auto simp: mx_def mxv max_absorb1)
  show ?thesis
    using pin minMaxBound_range [of b] d1 d2 d3 by blast
qed

theorem minMaxBound_sanitized_witness:
  "minMaxBound \<lparr>b_coal = ''A'', b_properties = Map.empty, b_min = Number (Numeric (Fin (- 3))),
      b_max = Number Missing, b_current = Fin 0, b_cost = None\<rparr> = (0, 100)
   \<and> minMaxBound \<lparr>b_coal = ''B'', b_properties = Map.empty, b_min = Number (Numeric (Fin (25 / 2))),
      b_max = Number (Numeric (Fin 250)), b_current = Fin 0, b_cost = None\<rparr> = (13, 100)
   \<and> minMaxBound \<lparr>b_coal = ''C'', b_properties = Map.empty, b_min = Number (Numeric (Fin 20)),
      b_max = Number Blank, b_current = Fin 0, b_cost = None\<rparr> = (20, 20)"
  using
    minMaxBound_sanitized [of "\<lparr>b_coal = ''A'', b_properties = Map.empty,
      b_min = Number (Numeric (Fin (- 3))), b_max = Number Missing, b_current = Fin 0,
      b_cost = None\<rparr>" "Numeric (Fin (- 3))" Missing]
    minMaxBound_sanitized [of "\<lparr>b_coal = ''B'', b_properties = Map.empty,
      b_min = Number (Numeric (Fin (25 / 2))), b_max = Number (Numeric (Fin 250)),
      b_current = Fin 0, b_cost = None\<rparr>" "Numeric (Fin (25 / 2))" "Numeric (Fin 250)"]
    minMaxBound_sanitized [of "\<lparr>b_coal = ''C'', b_properties = Map.empty,
      b_min = Number (Numeric (Fin 20)), b_max = Number Blank, b_current = Fin 0,
      b_cost = None\<rparr>" "Numeric (Fin 20)" Blank]
  by (simp add: Math_round_def)




section \<open>Properties of the AFT formula\<close>

lemma minus_Fin: "Fin a - Fin b = round_double (a - b)"
  by (simp add: minus_jsnum_def)

lemma round_double_not_NaN [simp]: "round_double x \<noteq> NaN"
  by (simp add: round_double_def Let_def)

lemma plus_finite_not_NaN: "isFinite a \<Longrightarrow> isFinite b \<Longrightarrow> a + b \<noteq> NaN"
  by (cases a; cases b) simp_all

text \<open>
  C1: on nine oxide values \<open>calculateAFT\<close> returns the regression of the regime that
  \<open>sumSiAl = SiO2 + Al2O3\<close> selects, every sum and product being that of doubles, taken
  from left to right: the first regression when \<open>sumSiAl < 55\<close>, the second when
  \<open>55 \<le> sumSiAl < 75\<close>, the third when \<open>sumSiAl \<ge> 75\<close>; at \<open>sumSiAl = 55\<close> exactly it is the
  second. The sum that selects is the rounded sum the program computes. For finite
  \<open>SiO2\<close> and \<open>Al2O3\<close> that sum is a number, so one of the three cases applies.
\<close>

theorem calculateAFT_piecewise:
  "calculateAFT [SiO2, Al2O3, Fe2O3, CaO, MgO, Na2O, K2O, SO3, TiO2] =
     (if SiO2 + Al2O3 < Fin 55 then
        Fin 1245 + lit 1.1 * SiO2 + lit 0.95 * Al2O3 - lit 2.5 * Fe2O3 - lit 2.98 * CaO
          - lit 4.5 * MgO - lit 7.89 * (Na2O + K2O) - lit 1.7 * SO3 - lit 0.63 * TiO2
      else if SiO2 + Al2O3 < Fin 75 then
        Fin 1323 + lit 1.45 * SiO2 + lit 0.683 * Al2O3 - lit 2.39 * Fe2O3 - lit 3.1 * CaO
          - lit 4.5 * MgO - lit 7.49 * (Na2O + K2O) - lit 2.1 * SO3 - lit 0.63 * TiO2
      else
        Fin 1395 + lit 1.2 * SiO2 + lit 0.9 * Al2O3 - lit 2.5 * Fe2O3 - lit 3.1 * CaO
          - lit 4.5 * MgO - lit 7.2 * (Na2O + K2O) - lit 1.7 * SO3 - lit 0.63 * TiO2)
   \<and> (Fin 55 \<le> SiO2 + Al2O3 \<and> SiO2 + Al2O3 < Fin 75 \<longrightarrow>
        calculateAFT [SiO2, Al2O3, Fe2O3, CaO, MgO, Na2O, K2O, SO3, TiO2] =
          Fin 1323 + lit 1.45 * SiO2 + lit 0.683 * Al2O3 - lit 2.39 * Fe2O3 - lit 3.1 * CaO
            - lit 4.5 * MgO - lit 7.49 * (Na2O + K2O) - lit 2.1 * SO3 - lit 0.63 * TiO2)
   \<and> (SiO2 + Al2O3 = Fin 55 \<longrightarrow>
        calculateAFT [SiO2, Al2O3, Fe2O3, CaO, MgO, Na2O, K2O, SO3, TiO2] =
          Fin 1323 + lit 1.45 * SiO2 + lit 0.683 * Al2O3 - lit 2.39 * Fe2O3 - lit 3.1 * CaO
            - lit 4.5 * MgO - lit 7.49 * (Na2O + K2O) - lit 2.1 * SO3 - lit 0.63 * TiO2)
   \<and> (Fin 75 \<le> SiO2 + Al2O3 \<longrightarrow>
        calculateAFT [SiO2, Al2O3, Fe2O3, CaO, MgO, Na2O, K2O, SO3, TiO2] =
          Fin 1395 + lit 1.2 * SiO2 + lit 0.9 * Al2O3 - lit 2.5 * Fe2O3 - lit 3.1 * CaO
            - lit 4.5 * MgO - lit 7.2 * (Na2O + K2O) - lit 1.7 * SO3 - lit 0.63 * TiO2)
   \<and> (isFinite SiO2 \<and> isFinite Al2O3 \<longrightarrow>
        SiO2 + Al2O3 < Fin 55 \<or> (Fin 55 \<le> SiO2 + Al2O3 \<and> SiO2 + Al2O3 < Fin 75)
          \<or> Fin 75 \<le> SiO2 + Al2O3)"
proof -
  define s where "s = SiO2 + Al2O3"
  have ord: "\<not> s < Fin 55" "\<not> s < Fin 75" if "Fin 75 \<le> s"
    using that by (cases s; simp)+
  have mid: "\<not> s < Fin 55" if "Fin 55 \<le> s"
    using that by (cases s) simp_all
  have low: "Fin 55 \<le> s" if "\<not> s < Fin 55" "s < Fin 75"
    using that by (cases s) simp_all
  have at: "\<not> Fin 55 < Fin 55" "Fin 55 < Fin 75" "Fin 55 \<le> Fin 55"
    by simp_all
  have tot: "s < Fin 55 \<or> (Fin 55 \<le> s \<and> s < Fin 75) \<or> Fin 75 \<le> s"
    if "isFinite SiO2" "isFinite Al2O3"
  proof -
    have "s \<noteq> NaN" unfolding s_def using that by (rule plus_finite_not_NaN)
    then show ?thesis by (cases s) auto
  qed
  show ?thesis
    unfolding calculateAFT_def js_at_def Let_def s_def [symmetric]
    using ord mid low at tot by (cases "s = Fin 55") (simp_all add: s_def [symmetric])
qed

lemma sum_30_25: "round_double (30 + (25 - 1 / 2 ^ 48)) = Fin 55"
proof -
  have k: "2 powi 5 \<le> \<bar>(30::real) + (25 - 1 / 2 ^ 48)\<bar>"
    "\<bar>(30::real) + (25 - 1 / 2 ^ 48)\<bar> < 2 powi (5 + 1)"
    by simp_all
  show ?thesis
    using round_double_at [OF k]
    by (simp add: round_even_def Let_def)
qed

theorem calculateAFT_piecewise_witness:
  "Fin 30 + Fin (25 - 1 / 2 ^ 48) = Fin 55
   \<and> calculateAFT [Fin 30, Fin (25 - 1 / 2 ^ 48), Fin 0, Fin 0, Fin 0, Fin 0, Fin 0, Fin 0,
        Fin 0] =
       Fin 1323 + lit 1.45 * Fin 30 + lit 0.683 * Fin (25 - 1 / 2 ^ 48) - lit 2.39 * Fin 0
         - lit 3.1 * Fin 0 - lit 4.5 * Fin 0 - lit 7.49 * (Fin 0 + Fin 0) - lit 2.1 * Fin 0
         - lit 0.63 * Fin 0"
  using calculateAFT_piecewise [of "Fin 30" "Fin (25 - 1 / 2 ^ 48)" "Fin 0" "Fin 0" "Fin 0"
      "Fin 0" "Fin 0" "Fin 0" "Fin 0"] sum_30_25
  by simp

section \<open>Properties of the enumeration\<close>

subsection \<open>The loop\<close>

lemma for_loop_concat:
  assumes "\<And>x. v \<le> x \<Longrightarrow> x \<le> max_v \<Longrightarrow>
      (case body x of Break \<Rightarrow> (\<forall>y. x \<le> y \<and> y \<le> max_v \<longrightarrow> g y = [])
                    | Next ys \<Rightarrow> ys = g x)"
  shows "for_loop v max_v body = concat (map g [v..max_v])"
  using assms
proof (induction v max_v body rule: for_loop.induct)
  case (1 v max_v body)
  show ?case
  proof (cases "v \<le> max_v")
    case False
    then show ?thesis by (simp add: for_loop.simps [of v])
  next
    case True
    note step = 1(2) [OF order_refl True]
    show ?thesis
    proof (cases "body v")
      case Break
      then have "\<forall>y. v \<le> y \<and> y \<le> max_v \<longrightarrow> g y = []" using step by simp
      then have "concat (map g [v..max_v]) = []" by simp
      then show ?thesis using Break True by (simp add: for_loop.simps [of v])
    next
      case (Next ys)
      then have ys: "ys = g v" using step by simp
      have "for_loop (v + 1) max_v body = concat (map g [v + 1..max_v])"
        using 1(1) [OF True Next] 1(2) by simp
      then show ?thesis
        using Next True ys by (simp add: for_loop.simps [of v] upto_rec1 [of v])
    qed
  qed
qed

lemma for_loop_Next: "for_loop v max_v (\<lambda>x. Next (g x)) = concat (map g [v..max_v])"
  by (rule for_loop_concat) simp

lemma for_loop_member:
  "c \<in> set (for_loop v max_v body) \<Longrightarrow>
     \<exists>x ys. v \<le> x \<and> x \<le> max_v \<and> body x = Next ys \<and> c \<in> set ys"
proof (induction v max_v body rule: for_loop.induct)
  case (1 v max_v body)
  show ?case
  proof (cases "v \<le> max_v")
    case False
    then show ?thesis using 1(2) by (simp add: for_loop.simps [of v])
  next
    case True
    show ?thesis
    proof (cases "body v")
      case Break
      then show ?thesis using 1(2) True by (simp add: for_loop.simps [of v])
    next
      case (Next ys)
      then have "c \<in> set ys \<or> c \<in> set (for_loop (v + 1) max_v body)"
        using 1(2) True by (simp add: for_loop.simps [of v])
      then show ?thesis
      proof
        assume "c \<in> set ys"
        then show ?thesis using Next True by auto
      next
        assume "c \<in> set (for_loop (v + 1) max_v body)"
        then obtain x zs where "v + 1 \<le> x" "x \<le> max_v" "body x = Next zs" "c \<in> set zs"
          using 1(1) [OF True Next] by blast
        then show ?thesis by (intro exI [of _ x] exI [of _ zs]) simp
      qed
    qed
  qed
qed

subsection \<open>The vectors of the ranges\<close>

lemma cross_sum_bounds:
  "s \<in> set (cross bs) \<Longrightarrow>
     sum_list (map fst bs) \<le> sum_list s \<and> sum_list s \<le> sum_list (map snd bs)"
proof (induction bs arbitrary: s)
  case Nil
  then show ?case by simp
next
  case (Cons b bs)
  then obtain v t where "s = v # t" "fst b \<le> v" "v \<le> snd b" "t \<in> set (cross bs)"
    by auto
  then show ?case using Cons.IH [of t] by simp
qed

lemma cross_list_all2:
  "s \<in> set (cross bs) \<longleftrightarrow> list_all2 (\<lambda>v b. fst b \<le> v \<and> v \<le> snd b) s bs"
proof (induction bs arbitrary: s)
  case Nil
  then show ?case by simp
next
  case (Cons b bs)
  show ?case by (cases s) (auto simp: Cons.IH image_iff)
qed

lemma concat_map_if:
  "concat (map (\<lambda>v. if P v then [f v] else []) xs) = map f (filter P xs)"
  by (induction xs) simp_all

lemma filter_eq_upto:
  "filter (\<lambda>v. v = k) [lo..hi] = (if lo \<le> k \<and> k \<le> hi then [k] else [])"
proof (induction lo hi rule: upto.induct)
  case (1 i j)
  show ?case
  proof (cases "i \<le> j")
    case False
    then show ?thesis by simp
  next
    case True
    then show ?thesis using 1 [OF True] by (simp add: upto_rec1 [of i j])
  qed
qed

lemma completions_end:
  "completions bounds (length bounds) acc = (if sum_list acc = 100 then [acc] else [])"
  by (simp add: completions_def)

lemma completions_step:
  assumes "idx < length bounds"
  shows "completions bounds idx acc =
    concat (map (\<lambda>v. completions bounds (idx + 1) (acc @ [v]))
      [fst (bounds ! idx)..snd (bounds ! idx)])"
proof -
  have d: "drop idx bounds = bounds ! idx # drop (idx + 1) bounds"
    using assms by (simp add: Cons_nth_drop_Suc)
  have a: "(@) (acc @ [v]) = (\<lambda>s. acc @ v # s)" for v
    by (rule ext) simp
  show ?thesis
    unfolding completions_def d
    by (simp add: filter_concat map_concat filter_map comp_def add.assoc a)
qed

lemma completions_last:
  assumes "idx + 1 = length bounds"
  shows "completions bounds idx acc =
    (if fst (bounds ! idx) \<le> 100 - sum_list acc \<and> 100 - sum_list acc \<le> snd (bounds ! idx)
     then [acc @ [100 - sum_list acc]] else [])"
proof -
  have lt: "idx < length bounds" using assms by simp
  have e: "(\<lambda>v. sum_list (acc @ [v]) = 100) = (\<lambda>v. v = 100 - sum_list acc)"
    by (rule ext) auto
  have "completions bounds idx acc =
      concat (map (\<lambda>v. if sum_list (acc @ [v]) = 100 then [acc @ [v]] else [])
        [fst (bounds ! idx)..snd (bounds ! idx)])"
    unfolding completions_step [OF lt] using assms by (simp add: completions_end)
  also have "\<dots> = map (\<lambda>v. acc @ [v])
      (filter (\<lambda>v. sum_list (acc @ [v]) = 100) [fst (bounds ! idx)..snd (bounds ! idx)])"
    by (rule concat_map_if)
  finally show ?thesis unfolding e filter_eq_upto by simp
qed

lemma completions_empty:
  assumes "\<And>s. s \<in> set (cross (drop idx bounds)) \<Longrightarrow> sum_list acc + sum_list s \<noteq> 100"
  shows "completions bounds idx acc = []"
  using assms by (simp add: completions_def filter_empty_conv)

lemma completions_member:
  "c \<in> set (completions bounds 0 []) \<longleftrightarrow>
     list_all2 (\<lambda>v b. fst b \<le> v \<and> v \<le> snd b) c bounds \<and> sum_list c = 100"
  by (auto simp: completions_def cross_list_all2)

subsection \<open>The two generators\<close>

lemma helper_completions:
  "index \<le> length bounds \<Longrightarrow> helper bounds index combo = completions bounds index combo"
proof (induction "length bounds - index" arbitrary: index combo)
  case 0
  then have "index = length bounds" by simp
  then show ?case
    by (subst helper.simps) (simp add: completions_end)
next
  case (Suc n)
  then have lt: "index < length bounds" by simp
  have IH: "helper bounds (Suc index) (combo @ [i])
      = completions bounds (Suc index) (combo @ [i])" for i
    using Suc(1) [of "Suc index"] Suc(2) lt by simp
  show ?case
    using lt
    by (simp add: helper.simps [of bounds index] IH for_loop_Next completions_step
        split: prod.splits)
qed

lemma generateCombinations_last:
  assumes "idx + 1 = length bounds"
  shows "generateCombinations bounds idx acc = completions bounds idx acc"
proof -
  obtain lo hi where b: "bounds ! idx = (lo, hi)" by (cases "bounds ! idx")
  have "int idx = int (length bounds) - 1" using assms by simp
  then show ?thesis
    by (simp add: generateCombinations.simps [of bounds idx] completions_last [OF assms] b Let_def)
qed

lemma generateCombinations_completions:
  assumes "idx < length bounds"
    and "\<And>b. b \<in> set (drop (idx + 1) bounds) \<Longrightarrow> 0 \<le> fst b"
  shows "generateCombinations bounds idx acc = completions bounds idx acc"
  using assms
proof (induction "length bounds - idx" arbitrary: idx acc)
  case 0
  then show ?case by simp
next
  case (Suc n)
  note lt = Suc(3) and nonneg = Suc(4)
  obtain lo hi where b: "bounds ! idx = (lo, hi)" by (cases "bounds ! idx")
  show ?case
  proof (cases "idx + 1 = length bounds")
    case True
    then show ?thesis by (rule generateCombinations_last)
  next
    case False
    then have lt': "idx + 1 < length bounds" using lt by simp
    have ne: "int idx \<noteq> int (length bounds) - 1" using False by linarith
    define rest where "rest = drop (idx + 1) bounds"
    define body where "body = (\<lambda>v.
              let sumSoFar = sum_list acc + v
              in if sumSoFar > 100 then Break
                 else
                   let remainingMin = sum_list (map fst rest);
                       remainingMax = sum_list (map snd rest)
                   in if sumSoFar + remainingMax < 100 then Next []
                      else if sumSoFar + remainingMin > 100 then Next []
                      else Next (generateCombinations bounds (idx + 1) (acc @ [v])))"
    have gen: "generateCombinations bounds idx acc = for_loop lo hi body"
      using lt ne unfolding body_def rest_def
      by (subst generateCombinations.simps) (simp add: b)
    have IH: "generateCombinations bounds (idx + 1) (acc @ [v])
        = completions bounds (idx + 1) (acc @ [v])" for v
    proof (rule Suc(1))
      show "n = length bounds - (idx + 1)" using Suc(2) by simp
      show "idx + 1 < length bounds" by (rule lt')
      show "0 \<le> fst b" if "b \<in> set (drop (idx + 1 + 1) bounds)" for b
        using that nonneg [of b] in_set_dropD [of b 1 "drop (idx + 1) bounds"] by simp
    qed
    have rmin: "0 \<le> sum_list (map fst rest)"
    proof (rule sum_list_nonneg)
      fix x assume "x \<in> set (map fst rest)"
      then obtain b where "b \<in> set (drop (idx + 1) bounds)" "x = fst b"
        by (auto simp: rest_def)
      then show "0 \<le> x" using nonneg [of b] by simp
    qed
    have rng: "sum_list (map fst rest) \<le> sum_list s \<and> sum_list s \<le> sum_list (map snd rest)"
      if "s \<in> set (cross rest)" for s
      using that by (rule cross_sum_bounds)
    have step: "(case body x of
          Break \<Rightarrow> (\<forall>y. x \<le> y \<and> y \<le> hi \<longrightarrow> completions bounds (idx + 1) (acc @ [y]) = [])
        | Next ys \<Rightarrow> ys = completions bounds (idx + 1) (acc @ [x]))" for x
    proof -
      consider (brk) "sum_list acc + x > 100"
        | (low) "\<not> sum_list acc + x > 100" "sum_list acc + x + sum_list (map snd rest) < 100"
        | (high) "\<not> sum_list acc + x > 100" "\<not> sum_list acc + x + sum_list (map snd rest) < 100"
            "sum_list acc + x + sum_list (map fst rest) > 100"
        | (rec) "\<not> sum_list acc + x > 100" "\<not> sum_list acc + x + sum_list (map snd rest) < 100"
            "\<not> sum_list acc + x + sum_list (map fst rest) > 100"
        by blast
      then show ?thesis
      proof cases
        case brk
        have "completions bounds (idx + 1) (acc @ [y]) = []" if "x \<le> y" for y
        proof (rule completions_empty)
          fix s assume "s \<in> set (cross (drop (idx + 1) bounds))"
          then have "0 \<le> sum_list s" using rng [of s] rmin by (simp add: rest_def)
          then show "sum_list (acc @ [y]) + sum_list s \<noteq> 100" using brk that by simp
        qed
        then show ?thesis using brk by (simp add: body_def)
      next
        case low
        have "completions bounds (idx + 1) (acc @ [x]) = []"
        proof (rule completions_empty)
          fix s assume "s \<in> set (cross (drop (idx + 1) bounds))"
          then show "sum_list (acc @ [x]) + sum_list s \<noteq> 100"
            using rng [of s] low by (simp add: rest_def)
        qed
        then show ?thesis using low by (simp add: body_def Let_def)
      next
        case high
        have "completions bounds (idx + 1) (acc @ [x]) = []"
        proof (rule completions_empty)
          fix s assume "s \<in> set (cross (drop (idx + 1) bounds))"
          then show "sum_list (acc @ [x]) + sum_list s \<noteq> 100"
            using rng [of s] high by (simp add: rest_def)
        qed
        then show ?thesis using high by (simp add: body_def Let_def)
      next
        case rec
        then show ?thesis using IH [of x] by (simp add: body_def Let_def)
      qed
    qed
    have "for_loop lo hi body
        = concat (map (\<lambda>v. completions bounds (idx + 1) (acc @ [v])) [lo..hi])"
      by (rule for_loop_concat) (rule step)
    then show ?thesis
      unfolding gen completions_step [OF lt] b by simp
  qed
qed

text \<open>Without any assumption on the bounds, what is yielded is a completion.\<close>

lemma generateCombinations_subset:
  assumes "idx < length bounds" and "c \<in> set (generateCombinations bounds idx acc)"
  shows "c \<in> set (completions bounds idx acc)"
  using assms
proof (induction "length bounds - idx" arbitrary: idx acc)
  case 0
  then show ?case by simp
next
  case (Suc n)
  note lt = Suc(3) and mem = Suc(4)
  obtain lo hi where b: "bounds ! idx = (lo, hi)" by (cases "bounds ! idx")
  show ?case
  proof (cases "idx + 1 = length bounds")
    case True
    then show ?thesis using mem by (simp add: generateCombinations_last)
  next
    case False
    then have lt': "idx + 1 < length bounds" using lt by simp
    have ne: "int idx \<noteq> int (length bounds) - 1" using False by linarith
    define body where "body = (\<lambda>v.
              let sumSoFar = sum_list acc + v
              in if sumSoFar > 100 then Break
                 else
                   let remainingMin = sum_list (map fst (drop (idx + 1) bounds));
                       remainingMax = sum_list (map snd (drop (idx + 1) bounds))
                   in if sumSoFar + remainingMax < 100 then Next []
                      else if sumSoFar + remainingMin > 100 then Next []
                      else Next (generateCombinations bounds (idx + 1) (acc @ [v])))"
    have gen: "generateCombinations bounds idx acc = for_loop lo hi body"
      using lt ne unfolding body_def
      by (subst generateCombinations.simps) (simp add: b)
    obtain x ys where x: "lo \<le> x" "x \<le> hi" "body x = Next ys" "c \<in> set ys"
      using for_loop_member [of c lo hi body] mem gen by auto
    have "ys = [] \<or> ys = generateCombinations bounds (idx + 1) (acc @ [x])"
      using x(3) by (auto simp: body_def Let_def split: if_splits)
    then have "c \<in> set (generateCombinations bounds (idx + 1) (acc @ [x]))"
      using x(4) by auto
    then have "c \<in> set (completions bounds (idx + 1) (acc @ [x]))"
      using Suc(1) [of "idx + 1" "acc @ [x]"] Suc(2) lt' by simp
    then show ?thesis
      unfolding completions_step [OF lt] b using x(1,2) by auto
  qed
qed

lemma generateCombinations_sound:
  assumes "bounds \<noteq> []" and "c \<in> set (generateCombinations bounds 0 [])"
  shows "list_all2 (\<lambda>v b. fst b \<le> v \<and> v \<le> snd b) c bounds \<and> sum_list c = 100"
proof -
  have "0 < length bounds" using assms(1) by simp
  then have "c \<in> set (completions bounds 0 [])"
    using assms(2) by (rule generateCombinations_subset)
  then show ?thesis by (simp add: completions_member)
qed

text \<open>
  C2: for a non-empty list of bounds, every vector the enumerator yields sums to
  exactly 100; its last entry is the forced one, 100 minus the sum of the others.
\<close>

theorem generateCombinations_sum_100:
  assumes "bounds \<noteq> []" and "c \<in> set (generateCombinations bounds 0 [])"
  shows "sum_list c = 100 \<and> c \<noteq> [] \<and> last c = 100 - sum_list (butlast c)"
proof -
  have s: "list_all2 (\<lambda>v b. fst b \<le> v \<and> v \<le> snd b) c bounds" "sum_list c = 100"
    using generateCombinations_sound [OF assms] by simp_all
  have ne: "c \<noteq> []" using s(1) assms(1) by (auto simp: list_all2_Nil)
  have "sum_list c = sum_list (butlast c) + last c"
    using ne by (metis append_butlast_last_id sum_list.Cons sum_list.Nil sum_list_append add.right_neutral)
  then show ?thesis using s(2) ne by simp
qed

theorem generateCombinations_sum_100_witness:
  "[(33, 33), (33, 33), (33, 34)] \<noteq> ([] :: (int \<times> int) list)
   \<and> [33, 33, 34] \<in> set (generateCombinations [(33, 33), (33, 33), (33, 34)] 0 [])
   \<and> sum_list [33, 33, 34 :: int] = 100"
proof -
  have m: "[33, 33, 34] \<in> set (generateCombinations [(33, 33), (33, 33), (33, 34)] 0 [])"
    by code_simp
  show ?thesis
    using generateCombinations_sum_100 [OF _ m] m by simp
qed

text \<open>
  C3: for a non-empty list of bounds, every vector the enumerator yields has one entry
  per coal and each entry lies within that coal's bounds, the forced last one included.
\<close>

theorem generateCombinations_within_bounds:
  assumes "bounds \<noteq> []" and "c \<in> set (generateCombinations bounds 0 [])"
  shows "length c = length bounds
    \<and> (\<forall>i < length bounds. fst (bounds ! i) \<le> c ! i \<and> c ! i \<le> snd (bounds ! i))"
  using generateCombinations_sound [OF assms] by (simp add: list_all2_conv_all_nth)

theorem generateCombinations_within_bounds_witness:
  "[(10, 20), (85, 95)] \<noteq> ([] :: (int \<times> int) list)
   \<and> [12, 88] \<in> set (generateCombinations [(10, 20), (85, 95)] 0 [])
   \<and> length [12, 88 :: int] = length [(10 :: int, 20 :: int), (85, 95)]
   \<and> fst ([(10 :: int, 20 :: int), (85, 95)] ! 1) \<le> [12, 88] ! 1
   \<and> [12, 88] ! 1 \<le> snd ([(10 :: int, 20 :: int), (85, 95)] ! 1)"
proof -
  have m: "[12, 88] \<in> set (generateCombinations [(10, 20), (85, 95)] 0 [])"
    by code_simp
  show ?thesis
    using generateCombinations_within_bounds [OF _ m] m by simp
qed

text \<open>
  C4: for a non-empty list of bounds of percentages the pruned enumerator yields the
  same vectors, in the same order, as the enumerator that walks the whole product of
  the ranges and keeps the vectors that sum to 100. Of the bounds only this is used:
  the lower bounds from the second position on are not negative. The bounds that the
  handler passes lie between 0 and 100.
\<close>

theorem generateCombinations_refines_naive:
  assumes "bounds \<noteq> []" and "\<forall>b \<in> set (tl bounds). 0 \<le> fst b"
  shows "generateCombinations bounds 0 [] = generateCombinations_naive bounds"
proof -
  have "generateCombinations bounds 0 [] = completions bounds 0 []"
  proof (rule generateCombinations_completions)
    show "0 < length bounds" using assms(1) by simp
    show "0 \<le> fst b" if "b \<in> set (drop (0 + 1) bounds)" for b
      using that assms(2) by (simp add: drop_Suc)
  qed
  also have "\<dots> = helper bounds 0 []"
    by (rule helper_completions [symmetric]) simp
  finally show ?thesis by (simp add: generateCombinations_naive_def)
qed

theorem generateCombinations_refines_naive_witness:
  "[(97, 100), (0, 2)] \<noteq> ([] :: (int \<times> int) list)
   \<and> tl [(97, 100), (0, 2)] = [(0 :: int, 2 :: int)]
   \<and> (0 :: int) \<le> fst (0 :: int, 2 :: int)
   \<and> generateCombinations [(97, 100), (0, 2)] 0 [] = generateCombinations_naive [(97, 100), (0, 2)]
   \<and> generateCombinations_naive [(97, 100), (0, 2)] = [[98, 2], [99, 1], [100, 0]]"
proof -
  have n: "generateCombinations_naive [(97, 100), (0, 2)] = [[98, 2], [99, 1], [100, 0]]"
    unfolding generateCombinations_naive_def by code_simp
  show ?thesis
    using generateCombinations_refines_naive [of "[(97, 100), (0, 2)]"] n by simp
qed

section \<open>Properties of scoring and selection\<close>

subsection \<open>Order and extremes of numbers other than NaN\<close>

lemma le_refl_js: "x \<noteq> NaN \<Longrightarrow> x \<le> (x::jsnum)"
  by (cases x) simp_all

lemma not_less_ge: "x \<noteq> NaN \<Longrightarrow> y \<noteq> NaN \<Longrightarrow> \<not> x < y \<Longrightarrow> y \<le> (x::jsnum)"
  by (cases x; cases y) auto

lemma less_imp_le_js: "x < y \<Longrightarrow> x \<le> (y::jsnum)"
  by (cases x; cases y) auto

lemma le_trans_js: "x \<le> y \<Longrightarrow> y \<le> z \<Longrightarrow> x \<le> (z::jsnum)"
  by (cases x; cases y; cases z) auto

lemma le_neq_less: "x \<le> y \<Longrightarrow> x \<noteq> y \<Longrightarrow> x < (y::jsnum)"
  by (cases x; cases y) auto

lemma max2_conv: "x \<noteq> NaN \<Longrightarrow> y \<noteq> NaN \<Longrightarrow> max2 x y = (if x < y then y else x)"
  by (cases x; cases y) simp_all

lemma min2_conv: "x \<noteq> NaN \<Longrightarrow> y \<noteq> NaN \<Longrightarrow> min2 x y = (if y < x then y else x)"
  by (cases x; cases y) simp_all

lemma max2_NaN_right [simp]: "max2 x NaN = NaN"
  by (cases x) simp_all

lemma min2_NaN_right [simp]: "min2 x NaN = NaN"
  by (cases x) simp_all



lemma Math_max_NaN: "NaN \<in> set xs \<Longrightarrow> Math_max xs = NaN"
  by (induction xs) auto

lemma Math_min_NaN: "NaN \<in> set xs \<Longrightarrow> Math_min xs = NaN"
  by (induction xs) auto

lemma Math_max_greatest:
  assumes "NaN \<notin> set xs"
  shows "Math_max xs \<noteq> NaN \<and> (\<forall>x \<in> set xs. x \<le> Math_max xs)
    \<and> (xs \<noteq> [] \<longrightarrow> Math_max xs \<in> set xs)"
  using assms
proof (induction xs)
  case Nil
  then show ?case by simp
next
  case (Cons x xs)
  define m where "m = Math_max xs"
  have x: "x \<noteq> NaN" using Cons.prems by auto
  have m: "m \<noteq> NaN" "\<forall>y \<in> set xs. y \<le> m" "xs \<noteq> [] \<longrightarrow> m \<in> set xs"
    using Cons by (auto simp: m_def)
  have e: "Math_max (x # xs) = (if x < m then m else x)"
    using x m(1) by (simp add: m_def [symmetric] max2_conv)
  show ?case
  proof (cases "x < m")
    case True
    have "xs \<noteq> []"
    proof
      assume "xs = []"
      then have "m = NegInf" by (simp add: m_def)
      then show False using True by (cases x) simp_all
    qed
    then show ?thesis
      using True e m less_imp_le_js [OF True] by auto
  next
    case False
    then have mx: "m \<le> x" using x m(1) by (intro not_less_ge)
    have "y \<le> x" if "y \<in> set xs" for y
      using that m(2) mx le_trans_js by blast
    then show ?thesis
      using False e x le_refl_js [OF x] by auto
  qed
qed

lemma Math_min_least:
  assumes "NaN \<notin> set xs"
  shows "Math_min xs \<noteq> NaN \<and> (\<forall>x \<in> set xs. Math_min xs \<le> x)
    \<and> (xs \<noteq> [] \<longrightarrow> Math_min xs \<in> set xs)"
  using assms
proof (induction xs)
  case Nil
  then show ?case by simp
next
  case (Cons x xs)
  define m where "m = Math_min xs"
  have x: "x \<noteq> NaN" using Cons.prems by auto
  have m: "m \<noteq> NaN" "\<forall>y \<in> set xs. m \<le> y" "xs \<noteq> [] \<longrightarrow> m \<in> set xs"
    using Cons by (auto simp: m_def)
  have e: "Math_min (x # xs) = (if m < x then m else x)"
    using x m(1) by (simp add: m_def [symmetric] min2_conv)
  show ?case
  proof (cases "m < x")
    case True
    have "xs \<noteq> []"
    proof
      assume "xs = []"
      then have "m = PosInf" by (simp add: m_def)
      then show False using True by (cases x) simp_all
    qed
    then show ?thesis
      using True e m less_imp_le_js [OF True] by auto
  next
    case False
    then have mx: "x \<le> m" using x m(1) by (intro not_less_ge)
    have "x \<le> y" if "y \<in> set xs" for y
      using that m(2) mx le_trans_js by blast
    then show ?thesis
      using False e x le_refl_js [OF x] by auto
  qed
qed



lemma indexOf_NaN: "indexOf xs NaN = - 1"
  by (induction xs) (simp_all add: strict_eq_def)

lemma indexOf_first:
  assumes "v \<noteq> NaN" and "v \<in> set xs"
  shows "\<exists>i < length xs. indexOf xs v = int i \<and> xs ! i = v \<and> (\<forall>j < i. xs ! j \<noteq> v)"
  using assms(2)
proof (induction xs)
  case Nil
  then show ?case by simp
next
  case (Cons x xs)
  show ?case
  proof (cases "x = v")
    case True
    then show ?thesis using assms(1) by (simp add: strict_eq_def)
  next
    case False
    then have "v \<in> set xs" using Cons.prems by simp
    then obtain i where i: "i < length xs" "indexOf xs v = int i"
        "xs ! i = v" "\<forall>j < i. xs ! j \<noteq> v"
      using Cons.IH by blast
    have "\<forall>j < Suc i. (x # xs) ! j \<noteq> v"
      using False i(4) by (simp add: nth_Cons split: nat.splits)
    then show ?thesis
      using False i(1,2,3) by (intro exI [of _ "Suc i"]) (simp add: strict_eq_def Let_def)
  qed
qed

lemma indexOf_Math_max:
  assumes "xs \<noteq> []" and "NaN \<notin> set xs"
  shows "\<exists>i. indexOf xs (Math_max xs) = int i \<and> first_max xs i"
proof -
  have m: "Math_max xs \<noteq> NaN" "\<forall>x \<in> set xs. x \<le> Math_max xs" "Math_max xs \<in> set xs"
    using Math_max_greatest [OF assms(2)] assms(1) by simp_all
  obtain i where i: "i < length xs" "indexOf xs (Math_max xs) = int i"
      "xs ! i = Math_max xs" "\<forall>j < i. xs ! j \<noteq> Math_max xs"
    using indexOf_first [OF m(1,3)] by blast
  have le: "xs ! j \<le> xs ! i" if "j < length xs" for j
    using that m(2) i(3) by simp
  have "xs ! j < xs ! i" if "j < i" for j
  proof -
    have "j < length xs" using that i(1) by simp
    then have "xs ! j \<le> xs ! i" by (rule le)
    moreover have "xs ! j \<noteq> xs ! i" using i(3,4) that by simp
    ultimately show ?thesis by (rule le_neq_less)
  qed
  then have "first_max xs i"
    unfolding first_max_def using i(1) le by simp
  then show ?thesis using i(2) by blast
qed

lemma indexOf_Math_min:
  assumes "xs \<noteq> []" and "NaN \<notin> set xs"
  shows "\<exists>i. indexOf xs (Math_min xs) = int i \<and> first_min xs i"
proof -
  have m: "Math_min xs \<noteq> NaN" "\<forall>x \<in> set xs. Math_min xs \<le> x" "Math_min xs \<in> set xs"
    using Math_min_least [OF assms(2)] assms(1) by simp_all
  obtain i where i: "i < length xs" "indexOf xs (Math_min xs) = int i"
      "xs ! i = Math_min xs" "\<forall>j < i. xs ! j \<noteq> Math_min xs"
    using indexOf_first [OF m(1,3)] by blast
  have le: "xs ! i \<le> xs ! j" if "j < length xs" for j
    using that m(2) i(3) by simp
  have "xs ! i < xs ! j" if "j < i" for j
  proof -
    have "j < length xs" using that i(1) by simp
    then have "xs ! i \<le> xs ! j" by (rule le)
    moreover have "xs ! i \<noteq> xs ! j" using i(3,4) that by metis
    ultimately show ?thesis by (rule le_neq_less)
  qed
  then have "first_min xs i"
    unfolding first_min_def using i(1) le by simp
  then show ?thesis using i(2) by blast
qed

subsection \<open>The scores\<close>






subsection \<open>The selection\<close>

lemma js_index_nat: "i < length xs \<Longrightarrow> js_index xs (int i) = Some (xs ! i)"
  by (simp add: js_index_def)

lemma js_index_minus_1: "js_index xs (- 1) = None"
  by (simp add: js_index_def)

section \<open>Properties of the handler\<close>

subsection \<open>Sums computed by \<open>reduce\<close>\<close>

lemma reduce_upt:
  "reduce f init xs = foldl (\<lambda>acc i. f acc (xs ! i) i) init [0..<length xs]"
proof -
  have z: "zip xs [0..<length xs] = map (\<lambda>i. (xs ! i, i)) [0..<length xs]"
    by (rule nth_equalityI) simp_all
  show ?thesis
    unfolding reduce_def z by (simp add: foldl_map)
qed

lemma foldl_upt_nth: "foldl (\<lambda>acc i. h acc (xs ! i)) a [0..<length xs] = foldl h a xs"
proof -
  have "foldl h a (map (\<lambda>i. xs ! i) [0..<length xs]) = foldl h a xs"
    by (simp only: map_nth)
  then show ?thesis by (simp add: foldl_map)
qed

lemma weighted_sum_map:
  "weighted_sum (map F bs) (map G bs) = foldl (\<lambda>s b. s + F b * G b) (Fin 0) bs"
  by (simp add: weighted_sum_def zip_map_map zip_same_conv_map foldl_map)

lemma reduce_weighted:
  assumes "length xs = length bs"
    and "\<And>acc i. i < length bs \<Longrightarrow> f acc (xs ! i) i = acc + F (bs ! i) * G (bs ! i)"
  shows "reduce f (Fin 0) xs = weighted_sum (map F bs) (map G bs)"
proof -
  have "foldl (\<lambda>acc i. f acc (xs ! i) i) (Fin 0) [0..<length bs]
      = foldl (\<lambda>acc i. (\<lambda>s b. s + F b * G b) acc (bs ! i)) (Fin 0) [0..<length bs]"
    by (rule foldl_cong) (simp_all add: assms(2))
  also have "\<dots> = foldl (\<lambda>s b. s + F b * G b) (Fin 0) bs"
    by (rule foldl_upt_nth)
  finally show ?thesis by (simp add: reduce_upt assms(1) weighted_sum_map)
qed

lemma map_upt_nth: "map (\<lambda>i. F (xs ! i)) [0..<length xs] = map F xs"
proof -
  have "map (\<lambda>i. F (xs ! i)) [0..<length xs] = map F (map (\<lambda>i. xs ! i) [0..<length xs])"
    by simp
  then show ?thesis by (simp only: map_nth)
qed

lemma or_zero_id: "x \<noteq> NaN \<Longrightarrow> or_zero x = x"
  by (auto simp: or_zero_def)

lemma isFinite_not_NaN: "isFinite x \<Longrightarrow> x \<noteq> NaN"
  by (cases x) simp_all

lemma costPerTon_finite: "isFinite (costPerTon b)"
  by (simp add: costPerTon_def split: option.splits)

lemma gcvOf_finite: "isFinite (gcvOf b)"
  by (simp add: gcvOf_def Let_def)

lemma js_at_oxideRow:
  "oi < length oxideCols \<Longrightarrow> js_at (oxideRow b) oi = oxideValue b (oxideCols ! oi)"
  by (simp add: js_at_def oxideRow_def)

lemma currentWeight_not_NaN: "(if isFinite n then n / Fin 100 else Fin 0) \<noteq> NaN"
  by (cases n) simp_all

lemma currentWeight_conv:
  assumes "n \<noteq> PosInf" and "n \<noteq> NegInf"
  shows "(if isFinite n then n / Fin 100 else Fin 0) = or_zero n / Fin 100"
  using assms by (cases n) (simp_all add: or_zero_def round_double_0)

subsection \<open>The responses\<close>

lemma those_map_Some: "those (map Some xs) = Some xs"
  by (induction xs) simp_all

lemma optimize_Array:
  assumes "blends \<noteq> []"
  shows "optimize (Array (map Some blends)) =
    (if generateCombinations (minMaxBounds blends) 0 [] = [] then Status404
     else Status200
       \<lparr>best_aft_blend = bestAftBlend
           (validBlends_of blends (generateCombinations (minMaxBounds blends) 0 [])),
        cheapest_blend = cheapestBlend
           (validBlends_of blends (generateCombinations (minMaxBounds blends) 0 [])),
        balanced_blend = balancedBlend
           (validBlends_of blends (generateCombinations (minMaxBounds blends) 0 [])),
        current_blend = currentBlend blends,
        individual_coal_afts = individualCoalAFTs blends\<rparr>)"
proof -
  have "minMaxBounds blends \<noteq> []" using assms by (simp add: minMaxBounds_def)
  then have call: "generateCombinations_call (minMaxBounds blends)
      = Inr (generateCombinations (minMaxBounds blends) 0 [])"
    by (simp add: generateCombinations_call_def)
  show ?thesis
    using assms by (simp add: optimize_def those_map_Some call validBlends_of_def Let_def)
qed

text \<open>
  C7: a missing, non-array or empty \<open>blends\<close> is answered with 400 before anything is
  enumerated; and for a non-empty array of coal objects whose sanitised bounds admit no
  integer vector within the bounds that sums to 100, the enumerator yields nothing, the
  candidate list is empty and the answer is 404, not the 500 of a caught exception.
  Conversely 404 is sent only then: a feasible input is answered with 200.
\<close>

theorem optimize_invalid_or_infeasible:
  "optimize Absent = Status400
   \<and> optimize NotArray = Status400
   \<and> optimize (Array []) = Status400
   \<and> (blends \<noteq> [] \<and>
        (\<forall>c. list_all2 (\<lambda>v b. fst b \<le> v \<and> v \<le> snd b) c (minMaxBounds blends)
              \<longrightarrow> sum_list c \<noteq> 100) \<longrightarrow>
          generateCombinations (minMaxBounds blends) 0 [] = []
        \<and> validBlends_of blends (generateCombinations (minMaxBounds blends) 0 []) = []
        \<and> optimize (Array (map Some blends)) = Status404)
   \<and> (blends \<noteq> [] \<and>
        (\<exists>c. list_all2 (\<lambda>v b. fst b \<le> v \<and> v \<le> snd b) c (minMaxBounds blends)
              \<and> sum_list c = 100) \<longrightarrow>
          (\<exists>r. optimize (Array (map Some blends)) = Status200 r))"
proof (intro conjI impI)
  show "optimize Absent = Status400" by (simp add: optimize_def)
  show "optimize NotArray = Status400" by (simp add: optimize_def)
  show "optimize (Array []) = Status400" by (simp add: optimize_def)
next
  assume a: "blends \<noteq> [] \<and>
        (\<forall>c. list_all2 (\<lambda>v b. fst b \<le> v \<and> v \<le> snd b) c (minMaxBounds blends)
              \<longrightarrow> sum_list c \<noteq> 100)"
  then have ne: "minMaxBounds blends \<noteq> []" by (simp add: minMaxBounds_def)
  show e: "generateCombinations (minMaxBounds blends) 0 [] = []"
  proof (cases "generateCombinations (minMaxBounds blends) 0 []")
    case Nil
    then show ?thesis .
  next
    case (Cons c cs)
    then have "c \<in> set (generateCombinations (minMaxBounds blends) 0 [])" by simp
    then show ?thesis using generateCombinations_sound [OF ne, of c] a by blast
  qed
  then show "validBlends_of blends (generateCombinations (minMaxBounds blends) 0 []) = []"
    by (simp add: validBlends_of_def)
  show "optimize (Array (map Some blends)) = Status404"
    using a e by (simp add: optimize_Array)
next
  assume a: "blends \<noteq> [] \<and>
        (\<exists>c. list_all2 (\<lambda>v b. fst b \<le> v \<and> v \<le> snd b) c (minMaxBounds blends)
              \<and> sum_list c = 100)"
  then obtain c where c: "c \<in> set (completions (minMaxBounds blends) 0 [])"
    by (auto simp: completions_member)
  have "generateCombinations (minMaxBounds blends) 0 [] = completions (minMaxBounds blends) 0 []"
  proof (rule generateCombinations_completions)
    show "0 < length (minMaxBounds blends)" using a by (simp add: minMaxBounds_def)
    show "0 \<le> fst b" if "b \<in> set (drop (0 + 1) (minMaxBounds blends))" for b
    proof -
      have "b \<in> set (minMaxBounds blends)" using that by (rule in_set_dropD)
      then show ?thesis using minMaxBound_range by (auto simp: minMaxBounds_def)
    qed
  qed
  then have "generateCombinations (minMaxBounds blends) 0 [] \<noteq> []" using c by auto
  then show "\<exists>r. optimize (Array (map Some blends)) = Status200 r"
    using a by (simp add: optimize_Array)
qed

theorem optimize_invalid_or_infeasible_witness:
  "optimize (Array
     [Some \<lparr>b_coal = ''A'', b_properties = Map.empty, b_min = Fin 60, b_max = Fin 60,
        b_current = Fin 50, b_cost = Some (Fin 10)\<rparr>,
      Some \<lparr>b_coal = ''B'', b_properties = Map.empty, b_min = Fin 60, b_max = Fin 60,
        b_current = Fin 50, b_cost = Some (Fin 20)\<rparr>]) = Status404"
proof -
  let ?bs = "[\<lparr>b_coal = ''A'', b_properties = Map.empty, b_min = Fin 60, b_max = Fin 60,
        b_current = Fin 50, b_cost = Some (Fin 10)\<rparr>,
      \<lparr>b_coal = ''B'', b_properties = Map.empty, b_min = Fin 60, b_max = Fin 60,
        b_current = Fin 50, b_cost = Some (Fin 20)\<rparr>]"
  have b: "minMaxBounds ?bs = [(60, 60), (60, 60)]"
    by (simp add: minMaxBounds_def minMaxBound_def Math_round_def)
  have "sum_list c \<noteq> 100" if "list_all2 (\<lambda>v b. fst b \<le> v \<and> v \<le> snd b) c (minMaxBounds ?bs)" for c
    using that unfolding b by (auto simp: list_all2_Cons2)
  then show ?thesis
    using optimize_invalid_or_infeasible [of ?bs] by simp
qed


subsection \<open>The current mix\<close>

lemma reduce_map:
  "reduce f init (map g xs) = reduce (\<lambda>acc x i. f acc (g x) i) init xs"
proof -
  have "foldl (\<lambda>acc i. f acc (map g xs ! i) i) init [0..<length xs]
      = foldl (\<lambda>acc i. f acc (g (xs ! i)) i) init [0..<length xs]"
    by (rule foldl_cong) simp_all
  then show ?thesis by (simp add: reduce_upt)
qed

lemma currentBlend_ignores_bounds:
  "currentBlend (map (\<lambda>b. b\<lparr>b_min := lo b, b_max := hi b\<rparr>) blends) = currentBlend blends"
proof -
  have o: "oxideValues (map (\<lambda>b. b\<lparr>b_min := lo b, b_max := hi b\<rparr>) blends) = oxideValues blends"
    by (simp add: oxideValues_def oxideRow_def oxideValue_def cong: option.case_cong)
  have g: "gcvValue (map (\<lambda>b. b\<lparr>b_min := lo b, b_max := hi b\<rparr>) blends) = gcvValue blends"
    by (simp add: gcvValue_def gcvOf_def cong: option.case_cong)
  have c: "costsPerTon (map (\<lambda>b. b\<lparr>b_min := lo b, b_max := hi b\<rparr>) blends) = costsPerTon blends"
    by (simp add: costsPerTon_def costPerTon_def)
  show ?thesis
    unfolding currentBlend_def o g c by (simp add: reduce_map comp_def)
qed

text \<open>
  C9 as stated fails: the current mix is not computed for every input list. The
  handler answers 404 as soon as the enumerator has yielded nothing, before the lines
  that compute the current mix, so for such an input no current mix is reported,
  although the mix of its \<open>current\<close> values is well defined.
\<close>

theorem currentBlend_not_computed_counterexample:
  "optimize (Array
     [Some \<lparr>b_coal = ''A'', b_properties = Map.empty, b_min = Fin 50, b_max = Fin 50,
        b_current = Fin 50, b_cost = Some (Fin 10)\<rparr>]) = Status404
   \<and> blend (currentBlend
     [\<lparr>b_coal = ''A'', b_properties = Map.empty, b_min = Fin 50, b_max = Fin 50,
        b_current = Fin 50, b_cost = Some (Fin 10)\<rparr>]) = [Fin 50]"
proof -
  let ?bs = "[\<lparr>b_coal = ''A'', b_properties = Map.empty, b_min = Fin 50, b_max = Fin 50,
        b_current = Fin 50, b_cost = Some (Fin 10)\<rparr>]"
  have b: "minMaxBounds ?bs = [(50, 50)]"
    by (simp add: minMaxBounds_def minMaxBound_def Math_round_def)
  have g: "generateCombinations [(50, 50)] 0 [] = []"
    by code_simp
  have "optimize (Array (map Some ?bs)) = Status404"
    using optimize_Array [of ?bs] by (simp add: b g)
  moreover have "blend (currentBlend ?bs) = [Fin 50]"
    by (simp add: currentBlend_def Let_def or_zero_def)
  ultimately show ?thesis by simp
qed

text \<open>
  C9, amended: whenever the handler answers 200, the current mix it reports is the
  weighted projection of the coals: the blended oxides, each the sum over the coals of
  oxide value times weight, go through \<open>calculateAFT\<close>, and cost and GCV are the sums of
  \<open>current\<close> times cost per ton (times GCV) over 100, all in the arithmetic of doubles
  and in the order of the coals. The weight of a coal is \<open>current / 100\<close> for a finite
  \<open>current\<close> and 0 otherwise; in the cost and GCV sums, and in the reported blend, a
  \<open>current\<close> that is NaN counts as 0. So for a \<open>current\<close> that is not an infinity the
  weight is the \<open>current\<close> used in those sums over 100. No assumption on the sum of the
  \<open>current\<close> values is needed and nothing is rescaled, and the result does not depend
  on the bounds.
\<close>

theorem currentBlend_projection:
  "(\<forall>r. optimize (Array (map Some blends)) = Status200 r \<longrightarrow>
         current_blend r = currentBlend blends)
   \<and> currentBlend blends =
       \<lparr>blend = map (\<lambda>b. or_zero (b_current b)) blends,
        predicted_aft = calculateAFT (map (\<lambda>col.
            weighted_sum (map (\<lambda>b. oxideValue b col) blends)
              (map (\<lambda>b. if isFinite (b_current b) then b_current b / Fin 100 else Fin 0)
                 blends))
            oxideCols),
        cost = weighted_sum (map (\<lambda>b. or_zero (b_current b)) blends)
                 (map costPerTon blends) / Fin 100,
        gcv = weighted_sum (map (\<lambda>b. or_zero (b_current b)) blends)
                (map gcvOf blends) / Fin 100\<rparr>
   \<and> (b_current (b::coal_in) \<noteq> PosInf \<and> b_current b \<noteq> NegInf \<longrightarrow>
        (if isFinite (b_current b) then b_current b / Fin 100 else Fin 0)
          = or_zero (b_current b) / Fin 100)
   \<and> currentBlend (map (\<lambda>b. b\<lparr>b_min := lo b, b_max := hi b\<rparr>) blends) = currentBlend blends"
proof (intro conjI impI allI)
  fix r assume r: "optimize (Array (map Some blends)) = Status200 r"
  then have "blends \<noteq> []" by (auto simp: optimize_def)
  then show "current_blend r = currentBlend blends"
    using r by (auto simp: optimize_Array split: if_splits)
next
  define W :: "coal_in \<Rightarrow> jsnum" where "W = (\<lambda>b. if isFinite (b_current b) then b_current b / Fin 100 else Fin 0)"
  define cw where "cw = map (\<lambda>b. let n = b_current b
                                      in if isFinite n then n / Fin 100 else Fin 0) blends"
  have cw: "cw = map W blends" by (simp add: cw_def W_def Let_def)
  have w: "or_zero (js_at cw i) = W (blends ! i)" if "i < length blends" for i
    using that currentWeight_not_NaN [of "b_current (blends ! i)"]
    by (simp add: cw js_at_def W_def or_zero_id)
  have ox: "reduce (\<lambda>sum val idx. sum + js_at val oi * or_zero (js_at cw idx)) (Fin 0)
        (oxideValues blends)
      = weighted_sum (map (\<lambda>b. oxideValue b (oxideCols ! oi)) blends) (map W blends)"
    if oi: "oi < length oxideCols" for oi
  proof (rule reduce_weighted)
    show "length (oxideValues blends) = length blends" by (simp add: oxideValues_def)
    show "acc + js_at (oxideValues blends ! i) oi * or_zero (js_at cw i)
        = acc + oxideValue (blends ! i) (oxideCols ! oi) * W (blends ! i)"
      if "i < length blends" for i acc
      using that w [OF that] js_at_oxideRow [OF oi, of "blends ! i"]
      by (simp add: oxideValues_def)
  qed
  have oxs: "map (\<lambda>oi. reduce (\<lambda>sum val idx. sum + js_at val oi * or_zero (js_at cw idx)) (Fin 0)
        (oxideValues blends)) [0..<length oxideCols]
      = map (\<lambda>col. weighted_sum (map (\<lambda>b. oxideValue b col) blends) (map W blends)) oxideCols"
  proof -
    have "map (\<lambda>oi. reduce (\<lambda>sum val idx. sum + js_at val oi * or_zero (js_at cw idx)) (Fin 0)
        (oxideValues blends)) [0..<length oxideCols]
      = map (\<lambda>oi. weighted_sum (map (\<lambda>b. oxideValue b (oxideCols ! oi)) blends) (map W blends))
          [0..<length oxideCols]"
      by (rule map_cong) (simp_all add: ox)
    also have "\<dots> = map (\<lambda>col. weighted_sum (map (\<lambda>b. oxideValue b col) blends) (map W blends))
        oxideCols"
      by (rule map_upt_nth [of "\<lambda>col. weighted_sum (map (\<lambda>b. oxideValue b col) blends)
          (map W blends)" oxideCols])
    finally show ?thesis .
  qed
  have g: "reduce (\<lambda>sum b i. sum + or_zero (b_current b) * or_zero (js_at (gcvValue blends) i))
        (Fin 0) blends
      = weighted_sum (map (\<lambda>b. or_zero (b_current b)) blends) (map gcvOf blends)"
  proof (rule reduce_weighted)
    show "length blends = length blends" by simp
    show "acc + or_zero (b_current (blends ! i)) * or_zero (js_at (gcvValue blends) i)
        = acc + or_zero (b_current (blends ! i)) * gcvOf (blends ! i)"
      if "i < length blends" for i acc
      using that isFinite_not_NaN [OF gcvOf_finite [of "blends ! i"]]
      by (simp add: gcvValue_def js_at_def or_zero_id)
  qed
  have c: "reduce (\<lambda>sum b i. sum + or_zero (b_current b) * or_zero (js_at (costsPerTon blends) i))
        (Fin 0) blends
      = weighted_sum (map (\<lambda>b. or_zero (b_current b)) blends) (map costPerTon blends)"
  proof (rule reduce_weighted)
    show "length blends = length blends" by simp
    show "acc + or_zero (b_current (blends ! i)) * or_zero (js_at (costsPerTon blends) i)
        = acc + or_zero (b_current (blends ! i)) * costPerTon (blends ! i)"
      if "i < length blends" for i acc
      using that isFinite_not_NaN [OF costPerTon_finite [of "blends ! i"]]
      by (simp add: costsPerTon_def js_at_def or_zero_id)
  qed
  have cb: "currentBlend blends =
     \<lparr>blend = map (\<lambda>b. or_zero (b_current b)) blends,
      predicted_aft = calculateAFT (map (\<lambda>oi.
          reduce (\<lambda>sum val idx. sum + js_at val oi * or_zero (js_at cw idx)) (Fin 0)
            (oxideValues blends)) [0..<length oxideCols]),
      cost = reduce (\<lambda>sum b i.
          sum + or_zero (b_current b) * or_zero (js_at (costsPerTon blends) i)) (Fin 0) blends
        / Fin 100,
      gcv = reduce (\<lambda>sum b i.
          sum + or_zero (b_current b) * or_zero (js_at (gcvValue blends) i)) (Fin 0) blends
        / Fin 100\<rparr>"
    by (simp add: currentBlend_def Let_def cw_def)
  show "currentBlend blends =
       \<lparr>blend = map (\<lambda>b. or_zero (b_current b)) blends,
        predicted_aft = calculateAFT (map (\<lambda>col.
            weighted_sum (map (\<lambda>b. oxideValue b col) blends)
              (map (\<lambda>b. if isFinite (b_current b) then b_current b / Fin 100 else Fin 0)
                 blends))
            oxideCols),
        cost = weighted_sum (map (\<lambda>b. or_zero (b_current b)) blends)
                 (map costPerTon blends) / Fin 100,
        gcv = weighted_sum (map (\<lambda>b. or_zero (b_current b)) blends)
                (map gcvOf blends) / Fin 100\<rparr>"
    unfolding cb oxs g c W_def ..
next
  assume "b_current b \<noteq> PosInf \<and> b_current b \<noteq> NegInf"
  then show "(if isFinite (b_current b) then b_current b / Fin 100 else Fin 0)
      = or_zero (b_current b) / Fin 100"
    using currentWeight_conv [of "b_current b"] by simp
next
  show "currentBlend (map (\<lambda>b. b\<lparr>b_min := lo b, b_max := hi b\<rparr>) blends) = currentBlend blends"
    by (rule currentBlend_ignores_bounds)
qed

lemma round_double_half: "round_double (1 / 2) = Fin (1 / 2)"
proof (rule round_double_exact)
  show "is_double (1 / 2)"
    unfolding is_double_def by (intro exI [of _ 1] exI [of _ "- 1"]) simp
qed

lemma round_double_quarter: "round_double (1 / 4) = Fin (1 / 4)"
proof (rule round_double_exact)
  show "is_double (1 / 4)"
    unfolding is_double_def by (intro exI [of _ 1] exI [of _ "- 2"]) simp
qed

theorem currentBlend_projection_witness:
  "currentBlend
     [\<lparr>b_coal = ''A'', b_properties = [''SiO2'' \<mapsto> Fin 50, ''GCV'' \<mapsto> Fin 5000],
        b_min = Fin 50, b_max = Fin 50, b_current = Fin 50, b_cost = Some (Fin 10)\<rparr>,
      \<lparr>b_coal = ''B'', b_properties = Map.empty, b_min = Fin 50, b_max = Fin 50,
        b_current = Fin 25, b_cost = Some (Fin 20)\<rparr>]
   = \<lparr>blend = [Fin 50, Fin 25],
      predicted_aft =
        calculateAFT [Fin 25, Fin 0, Fin 0, Fin 0, Fin 0, Fin 0, Fin 0, Fin 0, Fin 0],
      cost = Fin 10, gcv = Fin 2500\<rparr>
   \<and> (\<exists>r. optimize (Array
       [Some \<lparr>b_coal = ''A'', b_properties = [''SiO2'' \<mapsto> Fin 50, ''GCV'' \<mapsto> Fin 5000],
          b_min = Fin 50, b_max = Fin 50, b_current = Fin 50, b_cost = Some (Fin 10)\<rparr>,
        Some \<lparr>b_coal = ''B'', b_properties = Map.empty, b_min = Fin 50, b_max = Fin 50,
          b_current = Fin 25, b_cost = Some (Fin 20)\<rparr>]) = Status200 r
      \<and> current_blend r =
         \<lparr>blend = [Fin 50, Fin 25],
          predicted_aft =
            calculateAFT [Fin 25, Fin 0, Fin 0, Fin 0, Fin 0, Fin 0, Fin 0, Fin 0, Fin 0],
          cost = Fin 10, gcv = Fin 2500\<rparr>)"
proof -
  let ?a = "\<lparr>b_coal = ''A'', b_properties = [''SiO2'' \<mapsto> Fin 50, ''GCV'' \<mapsto> Fin 5000],
        b_min = Fin 50, b_max = Fin 50, b_current = Fin 50, b_cost = Some (Fin 10)\<rparr>"
  let ?b = "\<lparr>b_coal = ''B'', b_properties = Map.empty, b_min = Fin 50, b_max = Fin 50,
        b_current = Fin 25, b_cost = Some (Fin 20)\<rparr>"
  let ?c = "\<lparr>blend = [Fin 50, Fin 25],
      predicted_aft =
        calculateAFT [Fin 25, Fin 0, Fin 0, Fin 0, Fin 0, Fin 0, Fin 0, Fin 0, Fin 0],
      cost = Fin 10, gcv = Fin 2500\<rparr>"
  have ra: "oxideRow ?a = [Fin 50, Fin 0, Fin 0, Fin 0, Fin 0, Fin 0, Fin 0, Fin 0, Fin 0]"
    by code_simp
  have rb: "oxideRow ?b = [Fin 0, Fin 0, Fin 0, Fin 0, Fin 0, Fin 0, Fin 0, Fin 0, Fin 0]"
    by code_simp
  have g: "gcvOf ?a = Fin 5000" "gcvOf ?b = Fin 0"
    by (simp_all add: gcvOf_def)
  have c: "costPerTon ?a = Fin 10" "costPerTon ?b = Fin 20"
    by (simp_all add: costPerTon_def)
  note t = currentBlend_projection [where blends = "[?a, ?b]" and b = ?a and lo = b_min
      and hi = b_max]
  have cb: "currentBlend [?a, ?b] = ?c"
    using t ra rb
    by (simp add: oxideRow_def oxideCols_def g c weighted_sum_def or_zero_def
        round_double_numeral round_double_0 round_double_half round_double_quarter)
  have b: "minMaxBounds [?a, ?b] = [(50, 50), (50, 50)]"
    by (simp add: minMaxBounds_def minMaxBound_def Math_round_def)
  have gen: "generateCombinations [(50, 50), (50, 50)] 0 [] = [[50, 50]]"
    by code_simp
  obtain r where r: "optimize (Array (map Some [?a, ?b])) = Status200 r"
    using optimize_Array [of "[?a, ?b]"] unfolding b gen by simp
  then have "current_blend r = currentBlend [?a, ?b]"
    using t by blast
  then have "optimize (Array (map Some [?a, ?b])) = Status200 r \<and> current_blend r = ?c"
    using r cb by simp
  then have "\<exists>r. optimize (Array (map Some [?a, ?b])) = Status200 r \<and> current_blend r = ?c" ..
  then show ?thesis using cb by simp
qed

section \<open>Properties of the selection\<close>

lemma select_first_max:
  assumes "xs \<noteq> []" and "NaN \<notin> set xs" and "length ys = length xs"
  shows "\<exists>i. indexOf xs (Math_max xs) = int i
    \<and> js_index ys (indexOf xs (Math_max xs)) = Some (ys ! i) \<and> first_max xs i"
proof -
  obtain i where i: "indexOf xs (Math_max xs) = int i" "first_max xs i"
    using indexOf_Math_max [OF assms(1,2)] by blast
  have "i < length ys" using i(2) assms(3) by (simp add: first_max_def)
  then have "js_index ys (int i) = Some (ys ! i)" by (rule js_index_nat)
  then show ?thesis using i by auto
qed

lemma select_first_min:
  assumes "xs \<noteq> []" and "NaN \<notin> set xs" and "length ys = length xs"
  shows "\<exists>i. indexOf xs (Math_min xs) = int i
    \<and> js_index ys (indexOf xs (Math_min xs)) = Some (ys ! i) \<and> first_min xs i"
proof -
  obtain i where i: "indexOf xs (Math_min xs) = int i" "first_min xs i"
    using indexOf_Math_min [OF assms(1,2)] by blast
  have "i < length ys" using i(2) assms(3) by (simp add: first_min_def)
  then have "js_index ys (int i) = Some (ys ! i)" by (rule js_index_nat)
  then show ?thesis using i by auto
qed

lemma select_none_max: "NaN \<in> set xs \<Longrightarrow> js_index ys (indexOf xs (Math_max xs)) = None"
  by (simp add: Math_max_NaN indexOf_NaN js_index_minus_1)

lemma select_none_min: "NaN \<in> set xs \<Longrightarrow> js_index ys (indexOf xs (Math_min xs)) = None"
  by (simp add: Math_min_NaN indexOf_NaN js_index_minus_1)

subsection \<open>A cost that overflows\<close>

lemma times_zero_right: "isFinite x \<Longrightarrow> x * Fin 0 = Fin 0"
  by (cases x) (simp_all add: round_double_0)

lemma times_zero_left: "isFinite x \<Longrightarrow> Fin 0 * x = Fin 0"
  by (cases x) (simp_all add: round_double_0)

lemma lit_finite: "\<bar>c\<bar> < 2 ^ 1023 \<Longrightarrow> isFinite (lit c)"
  unfolding lit_def by (rule round_double_finite)

lemma calculateAFT_zero:
  "calculateAFT [Fin 0, Fin 0, Fin 0, Fin 0, Fin 0, Fin 0, Fin 0, Fin 0, Fin 0] = Fin 1245"
  by (simp add: calculateAFT_def js_at_def Let_def times_zero_right lit_finite minus_Fin
      round_double_0 round_double_numeral)

lemma evalBlend_zero_oxides:
  fixes c :: real and p q :: int
  defines "bs \<equiv> [\<lparr>b_coal = ''A'', b_properties = Map.empty, b_min = Fin 63, b_max = Fin 64,
        b_current = Fin 0, b_cost = Some (Fin c)\<rparr>,
      \<lparr>b_coal = ''B'', b_properties = Map.empty, b_min = Fin 36, b_max = Fin 37,
        b_current = Fin 0, b_cost = None\<rparr>]"
  assumes "\<bar>real_of_int p\<bar> < 2 ^ 1023" and "\<bar>real_of_int q\<bar> < 2 ^ 1023"
  shows "predicted_aft (evalBlend bs [p, q]) = Fin 1245"
    and "cost (evalBlend bs [p, q])
      = (Fin 0 + Fin (of_int p) * Fin c + Fin (of_int q) * Fin 0) / Fin 100"
proof -
  have ov: "oxideValues bs =
      [[Fin 0, Fin 0, Fin 0, Fin 0, Fin 0, Fin 0, Fin 0, Fin 0, Fin 0],
       [Fin 0, Fin 0, Fin 0, Fin 0, Fin 0, Fin 0, Fin 0, Fin 0, Fin 0]]"
    by (simp add: bs_def oxideValues_def oxideRow_def oxideCols_def oxideValue_def)
  have cp: "costsPerTon bs = [Fin c, Fin 0]"
    by (simp add: bs_def costsPerTon_def costPerTon_def)
  have wp: "isFinite (round_double (real_of_int p / 100))"
    using assms(2) by (intro round_double_finite) (simp add: abs_divide)
  have wq: "isFinite (round_double (real_of_int q / 100))"
    using assms(3) by (intro round_double_finite) (simp add: abs_divide)
  have ox: "blended_oxides (evalBlend bs [p, q])
      = [Fin 0, Fin 0, Fin 0, Fin 0, Fin 0, Fin 0, Fin 0, Fin 0, Fin 0]"
    by (simp add: evalBlend_def Let_def ov reduce_def js_at_def oxideCols_def
        times_zero_left wp wq round_double_0 upt_rec)
  have "predicted_aft (evalBlend bs [p, q]) = calculateAFT (blended_oxides (evalBlend bs [p, q]))"
    by (simp add: evalBlend_def Let_def)
  then show "predicted_aft (evalBlend bs [p, q]) = Fin 1245"
    unfolding ox by (simp only: calculateAFT_zero)
  show "cost (evalBlend bs [p, q])
      = (Fin 0 + Fin (of_int p) * Fin c + Fin (of_int q) * Fin 0) / Fin 100"
    by (simp add: evalBlend_def Let_def cp reduce_def js_at_def or_zero_def upt_rec)
qed

lemma powi_971: "(2::real) powi 971 = 2 ^ 971"
proof -
  define e :: int where "e = 971"
  have "(2::real) powi e = 2 ^ nat e" by (simp add: power_int_def e_def)
  also have "nat e = 971" by (simp add: e_def)
  finally show ?thesis unfolding e_def .
qed

lemma round_double_63: "round_double (63 * 2 ^ 1018) = Fin (63 * 2 ^ 1018)"
proof (rule round_double_exact)
  have "(2::real) ^ 1018 = 2 ^ (47 + 971)" by simp
  also have "\<dots> = 2 ^ 47 * 2 ^ 971" by (rule power_add)
  finally have a: "63 * (2::real) ^ 1018 = of_int (63 * 2 ^ 47) * 2 powi 971"
    unfolding powi_971 by simp
  have b: "\<bar>63 * 2 ^ 47 :: int\<bar> < 2 ^ 53" by simp
  have c: "- 1074 \<le> (971::int)" "(971::int) \<le> 971" by simp_all
  show "is_double (63 * 2 ^ 1018)"
    unfolding is_double_def using a b c by blast
qed

lemma round_double_64: "round_double (64 * 2 ^ 1018) = PosInf"
proof -
  have "(64::real) * 2 ^ 1018 = 2 ^ 1024" by simp
  then show ?thesis by (simp only: round_double_overflow)
qed

lemma cost_63: "\<exists>c. (Fin 0 + Fin (of_int 63) * Fin (2 ^ 1018) + Fin (of_int 37) * Fin 0) / Fin 100 = Fin c"
proof -
  have "isFinite (round_double (63 * 2 ^ 1018 / 100))"
    by (rule round_double_finite) simp
  then obtain c where c: "round_double (63 * 2 ^ 1018 / 100) = Fin c"
    by (cases "round_double (63 * 2 ^ 1018 / 100)") simp_all
  have a: "Fin (of_int 63) * Fin (2 ^ 1018) = Fin (63 * 2 ^ 1018)"
    using round_double_63 by simp
  have b: "Fin 0 + Fin (63 * 2 ^ 1018) = Fin (63 * 2 ^ 1018)"
    using round_double_63 by simp
  have d: "Fin (of_int 37) * Fin 0 = Fin 0"
    by (simp add: round_double_0)
  have e: "Fin (63 * 2 ^ 1018) + Fin 0 = Fin (63 * 2 ^ 1018)"
    using round_double_63 by simp
  have "Fin (63 * 2 ^ 1018) / Fin 100 = Fin c"
    using c by simp
  then show ?thesis unfolding a b d e by blast
qed

lemma cost_64: "(Fin 0 + Fin (of_int 64) * Fin (2 ^ 1018) + Fin (of_int 36) * Fin 0) / Fin 100 = PosInf"
proof -
  have a: "Fin (of_int 64) * Fin (2 ^ 1018) = PosInf"
    using round_double_64 by simp
  have d: "Fin (of_int 36) * Fin 0 = Fin 0"
    by (simp add: round_double_0)
  show ?thesis unfolding a d by simp
qed

text \<open>Two candidates of one AFT, the second with an infinite cost: every score is NaN.\<close>

lemma balanced_undefined:
  assumes "map predicted_aft vb = [Fin a, Fin a]" and "map cost vb = [Fin c, PosInf]"
  shows "blendScores vb = [NaN, NaN]" and "balancedBlend vb = None"
proof -
  obtain v1 v2 where vb: "vb = [v1, v2]"
    using assms(1) by (cases vb; cases "tl vb") auto
  have v: "predicted_aft v1 = Fin a" "predicted_aft v2 = Fin a" "cost v1 = Fin c"
      "cost v2 = PosInf"
    using assms unfolding vb by simp_all
  show s: "blendScores vb = [NaN, NaN]"
    unfolding vb
    by (simp add: blendScores_def aftNorm_def costNorm_def aftMin_def aftMax_def costMin_def
        costMax_def strict_eq_def v minus_jsnum_def)
  show "balancedBlend vb = None"
    unfolding balancedBlend_def indexOfBalanced_def s
    by (rule select_none_max) simp
qed

text \<open>
  C6 as stated fails: a cost per ton of \<open>2^1018\<close> is a finite number, yet 64 percent of
  it overflow to \<open>Infinity\<close> while 63 percent do not. With the bounds 63 to 64 and 36
  to 37 the two candidates have the costs of these two cases; each cost term is then
  \<open>Infinity / Infinity\<close> or has \<open>Infinity - Infinity\<close> above, both scores are NaN, the
  position of their maximum is \<open>-1\<close> and no balanced candidate is selected.
\<close>

theorem balanced_undefined_counterexample:
  "generateCombinations (minMaxBounds
     [\<lparr>b_coal = ''A'', b_properties = Map.empty, b_min = Fin 63, b_max = Fin 64,
        b_current = Fin 0, b_cost = Some (Fin (2 ^ 1018))\<rparr>,
      \<lparr>b_coal = ''B'', b_properties = Map.empty, b_min = Fin 36, b_max = Fin 37,
        b_current = Fin 0, b_cost = None\<rparr>]) 0 [] = [[63, 37], [64, 36]]
   \<and> blendScores (validBlends_of
     [\<lparr>b_coal = ''A'', b_properties = Map.empty, b_min = Fin 63, b_max = Fin 64,
        b_current = Fin 0, b_cost = Some (Fin (2 ^ 1018))\<rparr>,
      \<lparr>b_coal = ''B'', b_properties = Map.empty, b_min = Fin 36, b_max = Fin 37,
        b_current = Fin 0, b_cost = None\<rparr>] [[63, 37], [64, 36]]) = [NaN, NaN]
   \<and> balancedBlend (validBlends_of
     [\<lparr>b_coal = ''A'', b_properties = Map.empty, b_min = Fin 63, b_max = Fin 64,
        b_current = Fin 0, b_cost = Some (Fin (2 ^ 1018))\<rparr>,
      \<lparr>b_coal = ''B'', b_properties = Map.empty, b_min = Fin 36, b_max = Fin 37,
        b_current = Fin 0, b_cost = None\<rparr>] [[63, 37], [64, 36]]) = None
   \<and> (\<exists>r. optimize (Array
     [Some \<lparr>b_coal = ''A'', b_properties = Map.empty, b_min = Fin 63, b_max = Fin 64,
        b_current = Fin 0, b_cost = Some (Fin (2 ^ 1018))\<rparr>,
      Some \<lparr>b_coal = ''B'', b_properties = Map.empty, b_min = Fin 36, b_max = Fin 37,
        b_current = Fin 0, b_cost = None\<rparr>]) = Status200 r \<and> balanced_blend r = None)"
proof -
  let ?bs = "[\<lparr>b_coal = ''A'', b_properties = Map.empty, b_min = Fin 63, b_max = Fin 64,
        b_current = Fin 0, b_cost = Some (Fin (2 ^ 1018))\<rparr>,
      \<lparr>b_coal = ''B'', b_properties = Map.empty, b_min = Fin 36, b_max = Fin 37,
        b_current = Fin 0, b_cost = None\<rparr>]"
  let ?vb = "validBlends_of ?bs [[63, 37], [64, 36]]"
  have b: "minMaxBounds ?bs = [(63, 64), (36, 37)]"
    by (simp add: minMaxBounds_def minMaxBound_def Math_round_def)
  have g0: "generateCombinations [(63, 64), (36, 37)] 0 [] = [[63, 37], [64, 36]]"
    by code_simp
  have g: "generateCombinations (minMaxBounds ?bs) 0 [] = [[63, 37], [64, 36]]"
    unfolding b by (rule g0)
  have e1: "cost (evalBlend ?bs [63, 37])
      = (Fin 0 + Fin (of_int 63) * Fin (2 ^ 1018) + Fin (of_int 37) * Fin 0) / Fin 100"
    by (rule evalBlend_zero_oxides(2)) simp_all
  have e2: "cost (evalBlend ?bs [64, 36])
      = (Fin 0 + Fin (of_int 64) * Fin (2 ^ 1018) + Fin (of_int 36) * Fin 0) / Fin 100"
    by (rule evalBlend_zero_oxides(2)) simp_all
  have p1: "predicted_aft (evalBlend ?bs [63, 37]) = Fin 1245"
    by (rule evalBlend_zero_oxides(1)) simp_all
  have p2: "predicted_aft (evalBlend ?bs [64, 36]) = Fin 1245"
    by (rule evalBlend_zero_oxides(1)) simp_all
  obtain c where c: "cost (evalBlend ?bs [63, 37]) = Fin c"
    using cost_63 unfolding e1 by blast
  have vb: "?vb = [evalBlend ?bs [63, 37], evalBlend ?bs [64, 36]]"
    unfolding validBlends_of_def by (simp only: list.map)
  have a: "map predicted_aft ?vb = [Fin 1245, Fin 1245]"
    unfolding vb by (simp only: list.map p1 p2)
  have "cost (evalBlend ?bs [64, 36]) = PosInf"
    unfolding e2 by (rule cost_64)
  then have k: "map cost ?vb = [Fin c, PosInf]"
    unfolding vb using c by (simp only: list.map)
  have s: "blendScores ?vb = [NaN, NaN]" and n: "balancedBlend ?vb = None"
    using balanced_undefined [OF a k] by simp_all
  have "optimize (Array (map Some ?bs)) = Status200
       \<lparr>best_aft_blend = bestAftBlend ?vb, cheapest_blend = cheapestBlend ?vb,
        balanced_blend = balancedBlend ?vb, current_blend = currentBlend ?bs,
        individual_coal_afts = individualCoalAFTs ?bs\<rparr>"
    using optimize_Array [of ?bs] unfolding g by simp
  then have "\<exists>r. optimize (Array (map Some ?bs)) = Status200 r \<and> balanced_blend r = None"
    using n by simp
  then show ?thesis using g s n by simp
qed

text \<open>
  C6, amended: for a non-empty list of candidates, the selector returns the candidate
  at the first position of the greatest predicted AFT when no AFT is NaN, the one at the
  first position of the least cost when no cost is NaN, and the one at the first position
  of the greatest balanced score when no score is NaN, the scores being those the
  program computes in doubles. When one of the values compared is NaN, the
  corresponding selection is undefined.
\<close>

theorem selection_first_extremes:
  assumes "validBlends \<noteq> []"
  shows "(NaN \<notin> set (map predicted_aft validBlends) \<longrightarrow>
            (\<exists>i. indexOfBestAft validBlends = int i
               \<and> bestAftBlend validBlends = Some (validBlends ! i)
               \<and> first_max (map predicted_aft validBlends) i))
       \<and> (NaN \<notin> set (map cost validBlends) \<longrightarrow>
            (\<exists>j. indexOfCheapest validBlends = int j
               \<and> cheapestBlend validBlends = Some (validBlends ! j)
               \<and> first_min (map cost validBlends) j))
       \<and> (NaN \<notin> set (blendScores validBlends) \<longrightarrow>
            (\<exists>k. indexOfBalanced validBlends = int k
               \<and> balancedBlend validBlends = Some (validBlends ! k)
               \<and> first_max (blendScores validBlends) k))
       \<and> (NaN \<in> set (map predicted_aft validBlends) \<longrightarrow> bestAftBlend validBlends = None)
       \<and> (NaN \<in> set (map cost validBlends) \<longrightarrow> cheapestBlend validBlends = None)
       \<and> (NaN \<in> set (blendScores validBlends) \<longrightarrow> balancedBlend validBlends = None)"
proof (intro conjI impI)
  assume "NaN \<notin> set (map predicted_aft validBlends)"
  then show "\<exists>i. indexOfBestAft validBlends = int i
      \<and> bestAftBlend validBlends = Some (validBlends ! i)
      \<and> first_max (map predicted_aft validBlends) i"
    unfolding bestAftBlend_def indexOfBestAft_def Let_def
    using assms by (intro select_first_max) simp_all
next
  assume "NaN \<notin> set (map cost validBlends)"
  then show "\<exists>j. indexOfCheapest validBlends = int j
      \<and> cheapestBlend validBlends = Some (validBlends ! j)
      \<and> first_min (map cost validBlends) j"
    unfolding cheapestBlend_def indexOfCheapest_def Let_def
    using assms by (intro select_first_min) simp_all
next
  assume "NaN \<notin> set (blendScores validBlends)"
  then show "\<exists>k. indexOfBalanced validBlends = int k
      \<and> balancedBlend validBlends = Some (validBlends ! k)
      \<and> first_max (blendScores validBlends) k"
    unfolding balancedBlend_def indexOfBalanced_def
    using assms by (intro select_first_max) (simp_all add: blendScores_def)
next
  assume "NaN \<in> set (map predicted_aft validBlends)"
  then show "bestAftBlend validBlends = None"
    unfolding bestAftBlend_def indexOfBestAft_def Let_def by (rule select_none_max)
next
  assume "NaN \<in> set (map cost validBlends)"
  then show "cheapestBlend validBlends = None"
    unfolding cheapestBlend_def indexOfCheapest_def Let_def by (rule select_none_min)
next
  assume "NaN \<in> set (blendScores validBlends)"
  then show "balancedBlend validBlends = None"
    unfolding balancedBlend_def indexOfBalanced_def by (rule select_none_max)
qed

theorem selection_first_extremes_witness:
  "bestAftBlend
     [\<lparr>blend = [Fin 0], predicted_aft = Fin 1200, cost = Fin 10, gcv = Fin 0, blended_oxides = []\<rparr>,
      \<lparr>blend = [Fin 1], predicted_aft = Fin 1300, cost = Fin 30, gcv = Fin 0, blended_oxides = []\<rparr>,
      \<lparr>blend = [Fin 2], predicted_aft = Fin 1300, cost = Fin 10, gcv = Fin 0, blended_oxides = []\<rparr>]
     = Some \<lparr>blend = [Fin 1], predicted_aft = Fin 1300, cost = Fin 30, gcv = Fin 0, blended_oxides = []\<rparr>
   \<and> cheapestBlend
     [\<lparr>blend = [Fin 0], predicted_aft = Fin 1200, cost = Fin 10, gcv = Fin 0, blended_oxides = []\<rparr>,
      \<lparr>blend = [Fin 1], predicted_aft = Fin 1300, cost = Fin 30, gcv = Fin 0, blended_oxides = []\<rparr>,
      \<lparr>blend = [Fin 2], predicted_aft = Fin 1300, cost = Fin 10, gcv = Fin 0, blended_oxides = []\<rparr>]
     = Some \<lparr>blend = [Fin 0], predicted_aft = Fin 1200, cost = Fin 10, gcv = Fin 0, blended_oxides = []\<rparr>
   \<and> blendScores
     [\<lparr>blend = [Fin 0], predicted_aft = Fin 1200, cost = Fin 10, gcv = Fin 0, blended_oxides = []\<rparr>,
      \<lparr>blend = [Fin 1], predicted_aft = Fin 1300, cost = Fin 30, gcv = Fin 0, blended_oxides = []\<rparr>,
      \<lparr>blend = [Fin 2], predicted_aft = Fin 1300, cost = Fin 10, gcv = Fin 0, blended_oxides = []\<rparr>]
     = [Fin 1, Fin 1, Fin 2]
   \<and> balancedBlend
     [\<lparr>blend = [Fin 0], predicted_aft = Fin 1200, cost = Fin 10, gcv = Fin 0, blended_oxides = []\<rparr>,
      \<lparr>blend = [Fin 1], predicted_aft = Fin 1300, cost = Fin 30, gcv = Fin 0, blended_oxides = []\<rparr>,
      \<lparr>blend = [Fin 2], predicted_aft = Fin 1300, cost = Fin 10, gcv = Fin 0, blended_oxides = []\<rparr>]
     = Some \<lparr>blend = [Fin 2], predicted_aft = Fin 1300, cost = Fin 10, gcv = Fin 0, blended_oxides = []\<rparr>"
proof -
  let ?vb = "[\<lparr>blend = [Fin 0], predicted_aft = Fin 1200, cost = Fin 10, gcv = Fin 0, blended_oxides = []\<rparr>,
      \<lparr>blend = [Fin 1], predicted_aft = Fin 1300, cost = Fin 30, gcv = Fin 0, blended_oxides = []\<rparr>,
      \<lparr>blend = [Fin 2], predicted_aft = Fin 1300, cost = Fin 10, gcv = Fin 0, blended_oxides = []\<rparr>]"
  have s: "blendScores ?vb = [Fin 1, Fin 1, Fin 2]"
    by (simp add: blendScores_def aftNorm_def costNorm_def aftMin_def aftMax_def costMin_def
        costMax_def strict_eq_def minus_Fin round_double_numeral round_double_0 round_double_1)
  have i: "indexOfBestAft ?vb = 1" "indexOfCheapest ?vb = 0" "indexOfBalanced ?vb = 2"
    unfolding indexOfBalanced_def s
    by (simp_all add: indexOfBestAft_def indexOfCheapest_def strict_eq_def)
  have n: "NaN \<notin> set (map predicted_aft ?vb)" "NaN \<notin> set (map cost ?vb)"
      "NaN \<notin> set (blendScores ?vb)"
    unfolding s by simp_all
  obtain i j k where
      "indexOfBestAft ?vb = int i" "bestAftBlend ?vb = Some (?vb ! i)"
      "indexOfCheapest ?vb = int j" "cheapestBlend ?vb = Some (?vb ! j)"
      "indexOfBalanced ?vb = int k" "balancedBlend ?vb = Some (?vb ! k)"
    using selection_first_extremes [of ?vb] n by auto
  then show ?thesis using i s by simp
qed

end
